theory Spec2Isabelle
  imports Main "HOL-Library.Word"
begin

section \<open>JavaScript values\<close>

text \<open>
  The two edge functions (\<^verbatim>\<open>document-processor\<close> and the RAG handler) are TypeScript on
  Deno.  A JavaScript string is a sequence of UTF-16 code units and a \<^verbatim>\<open>Uint8Array\<close> a
  sequence of octets; string literals of the source are written \<open>js ''...''\<close>.  Whatever
  the source can throw is a value of \<open>exn\<close>: \<open>Error m\<close> is \<^verbatim>\<open>new Error(m)\<close>, the others
  are what the platform raises (\<open>DataError\<close> and \<open>OperationError\<close> by
  \<^verbatim>\<open>crypto.subtle\<close>, \<open>SyntaxError\<close> by the JSON parser, \<open>TypeError\<close> by a property read
  on \<^verbatim>\<open>undefined\<close>, \<open>RandomSourceUnavailable\<close> by \<^verbatim>\<open>crypto.getRandomValues\<close>).
\<close>

type_synonym jsstring = "16 word list"

type_synonym bytes = "8 word list"

definition js :: "string \<Rightarrow> jsstring" where
  "js s = map (\<lambda>c. of_nat (of_char c)) s"

datatype exn =
    Error jsstring
  | DataError
  | OperationError
  | SyntaxError
  | TypeError
  | RandomSourceUnavailable

subsection \<open>String.prototype.padStart, padEnd, substr; Number.prototype.toString\<close>

text \<open>
  Only the call shapes of the source are modelled: a one-character filler for
  \<^verbatim>\<open>padStart\<close> and \<^verbatim>\<open>padEnd\<close>, radix 16 and radix 10 for \<^verbatim>\<open>toString\<close> on a
  non-negative integer.  \<^verbatim>\<open>s.slice(0, 32)\<close> is \<open>take 32 s\<close>.
\<close>

definition padStart :: "nat \<Rightarrow> 16 word \<Rightarrow> jsstring \<Rightarrow> jsstring" where
  "padStart targetLength c s = replicate (targetLength - length s) c @ s"

definition padEnd :: "nat \<Rightarrow> 16 word \<Rightarrow> jsstring \<Rightarrow> jsstring" where
  "padEnd targetLength c s = s @ replicate (targetLength - length s) c"

definition substr :: "jsstring \<Rightarrow> nat \<Rightarrow> nat \<Rightarrow> jsstring" where
  "substr s start len = take len (drop start s)"

definition digit_char :: "nat \<Rightarrow> 16 word" where
  "digit_char d = (if d < 10 then of_nat (0x30 + d) else of_nat (0x57 + d))"

fun toString16 :: "nat \<Rightarrow> jsstring" where
  "toString16 n = (if n < 16 then [digit_char n] else toString16 (n div 16) @ [digit_char (n mod 16)])"

declare toString16.simps [simp del]

fun toString10 :: "nat \<Rightarrow> jsstring" where
  "toString10 n = (if n < 10 then [digit_char n] else toString10 (n div 10) @ [digit_char (n mod 10)])"

declare toString10.simps [simp del]

subsection \<open>parseInt(_, 16) and the store into a Uint8Array\<close>

text \<open>
  \<^verbatim>\<open>parseInt\<close> skips leading white space, reads a sign, skips a \<^verbatim>\<open>0x\<close> prefix and takes
  the longest run of hexadecimal digits; with no digit the result is \<^verbatim>\<open>NaN\<close>, here
  \<open>None\<close>.  Storing into a \<^verbatim>\<open>Uint8Array\<close> keeps the value modulo 256 and turns
  \<^verbatim>\<open>NaN\<close> into 0; a store beyond the end of the array is dropped.
\<close>

definition hex_value :: "16 word \<Rightarrow> nat option" where
  "hex_value u =
     (if 0x30 \<le> u \<and> u \<le> 0x39 then Some (unat u - 0x30)
      else if 0x61 \<le> u \<and> u \<le> 0x66 then Some (unat u - 0x57)
      else if 0x41 \<le> u \<and> u \<le> 0x46 then Some (unat u - 0x37)
      else None)"

definition is_white_space :: "16 word \<Rightarrow> bool" where
  "is_white_space u \<longleftrightarrow>
     u \<in> {0x09, 0x0A, 0x0B, 0x0C, 0x0D, 0x20, 0xA0, 0x1680, 0x2028, 0x2029, 0x202F, 0x205F, 0x3000, 0xFEFF}
     \<or> (0x2000 \<le> u \<and> u \<le> 0x200A)"

fun hex_digits_value :: "nat \<Rightarrow> jsstring \<Rightarrow> nat" where
  "hex_digits_value acc [] = acc"
| "hex_digits_value acc (u # us) =
     (case hex_value u of None \<Rightarrow> acc | Some d \<Rightarrow> hex_digits_value (16 * acc + d) us)"

definition parseInt16 :: "jsstring \<Rightarrow> int option" where
  "parseInt16 s =
     (let t = dropWhile is_white_space s;
          sign = (case t of u # _ \<Rightarrow> if u = 0x2D then - 1 else 1 | [] \<Rightarrow> 1);
          t1 = (case t of u # r \<Rightarrow> if u = 0x2D \<or> u = 0x2B then r else t | [] \<Rightarrow> t);
          t2 = (case t1 of a # b # r \<Rightarrow> if a = 0x30 \<and> (b = 0x78 \<or> b = 0x58) then r else t1 | _ \<Rightarrow> t1)
      in case t2 of
           [] \<Rightarrow> None
         | u # _ \<Rightarrow> (case hex_value u of None \<Rightarrow> None
                     | Some _ \<Rightarrow> Some (sign * int (hex_digits_value 0 t2))))"

definition ToUint8 :: "int option \<Rightarrow> 8 word" where
  "ToUint8 v = (case v of None \<Rightarrow> 0 | Some n \<Rightarrow> of_int n)"

definition typed_array_set :: "bytes \<Rightarrow> nat \<Rightarrow> 8 word \<Rightarrow> bytes" where
  "typed_array_set a i v = (if i < length a then a[i := v] else a)"

subsection \<open>KMSService.uint8ArrayToHex and KMSService.hexToUint8Array\<close>

text \<open>
  \<^verbatim>\<open>
  private uint8ArrayToHex(bytes: Uint8Array): string {
    return Array.from(bytes).map(b => b.toString(16).padStart(2, '0')).join('');
  }
  private hexToUint8Array(hex: string): Uint8Array {
    const bytes = new Uint8Array(hex.length / 2);
    for (let i = 0; i < hex.length; i += 2) {
      bytes[i / 2] = parseInt(hex.substr(i, 2), 16);
    }
    return bytes;
  }
  \<close>
\<close>

definition uint8ArrayToHex :: "bytes \<Rightarrow> jsstring" where
  "uint8ArrayToHex bs = concat (map (\<lambda>b. padStart 2 0x30 (toString16 (unat b))) bs)"

function hexToUint8Array_loop :: "jsstring \<Rightarrow> nat \<Rightarrow> bytes \<Rightarrow> bytes" where
  "hexToUint8Array_loop hex i a =
     (if i < length hex
      then hexToUint8Array_loop hex (i + 2)
             (typed_array_set a (i div 2) (ToUint8 (parseInt16 (substr hex i 2))))
      else a)"
  by pat_completeness auto
termination
  by (relation "measure (\<lambda>(hex, i, a). length hex - i)") auto

declare hexToUint8Array_loop.simps [simp del]

definition hexToUint8Array :: "jsstring \<Rightarrow> bytes" where
  "hexToUint8Array hex = hexToUint8Array_loop hex 0 (replicate (length hex div 2) 0)"

subsection \<open>TextEncoder.encode and TextDecoder.decode\<close>

text \<open>
  The encoder turns the string into scalar values (a lone surrogate becomes U+FFFD) and
  writes each in UTF-8.  The decoder is the UTF-8 decoder of the Encoding standard: the
  arguments of \<open>utf8_decoder\<close> are the code point under construction, the number of
  continuation bytes still expected and the bounds for the next byte; a malformed sequence
  yields U+FFFD and the offending byte is read again as a lead byte.  A leading byte order
  mark is removed from the output.
\<close>

definition is_high_surrogate :: "16 word \<Rightarrow> bool" where
  "is_high_surrogate u \<longleftrightarrow> 0xD800 \<le> u \<and> u \<le> 0xDBFF"

definition is_low_surrogate :: "16 word \<Rightarrow> bool" where
  "is_low_surrogate u \<longleftrightarrow> 0xDC00 \<le> u \<and> u \<le> 0xDFFF"

fun code_points :: "jsstring \<Rightarrow> nat list" where
  "code_points [] = []"
| "code_points [u] = [if is_high_surrogate u \<or> is_low_surrogate u then 0xFFFD else unat u]"
| "code_points (u # v # r) =
     (if is_high_surrogate u \<and> is_low_surrogate v
      then (0x10000 + (unat u - 0xD800) * 0x400 + (unat v - 0xDC00)) # code_points r
      else (if is_high_surrogate u \<or> is_low_surrogate u then 0xFFFD else unat u) # code_points (v # r))"

definition utf8_bytes :: "nat \<Rightarrow> bytes" where
  "utf8_bytes c =
     (if c < 0x80 then [of_nat c]
      else if c < 0x800 then [of_nat (0xC0 + c div 0x40), of_nat (0x80 + c mod 0x40)]
      else if c < 0x10000 then
        [of_nat (0xE0 + c div 0x1000), of_nat (0x80 + c div 0x40 mod 0x40), of_nat (0x80 + c mod 0x40)]
      else
        [of_nat (0xF0 + c div 0x40000), of_nat (0x80 + c div 0x1000 mod 0x40),
         of_nat (0x80 + c div 0x40 mod 0x40), of_nat (0x80 + c mod 0x40)])"

definition TextEncoder_encode :: "jsstring \<Rightarrow> bytes" where
  "TextEncoder_encode s = concat (map utf8_bytes (code_points s))"

datatype utf8_lead = Emit nat | Need nat nat nat nat

definition utf8_lead_byte :: "nat \<Rightarrow> utf8_lead" where
  "utf8_lead_byte b =
     (if b \<le> 0x7F then Emit b
      else if 0xC2 \<le> b \<and> b \<le> 0xDF then Need (b mod 0x20) 1 0x80 0xBF
      else if 0xE0 \<le> b \<and> b \<le> 0xEF then
        Need (b mod 0x10) 2 (if b = 0xE0 then 0xA0 else 0x80) (if b = 0xED then 0x9F else 0xBF)
      else if 0xF0 \<le> b \<and> b \<le> 0xF4 then
        Need (b mod 0x08) 3 (if b = 0xF0 then 0x90 else 0x80) (if b = 0xF4 then 0x8F else 0xBF)
      else Emit 0xFFFD)"

fun utf8_decoder :: "nat \<Rightarrow> nat \<Rightarrow> nat \<Rightarrow> nat \<Rightarrow> bytes \<Rightarrow> nat list" where
  "utf8_decoder cp needed lower upper [] = (if needed = 0 then [] else [0xFFFD])"
| "utf8_decoder cp needed lower upper (b # bs) =
     (if needed = 0 then
        (case utf8_lead_byte (unat b) of
           Emit c \<Rightarrow> c # utf8_decoder 0 0 0x80 0xBF bs
         | Need c k l h \<Rightarrow> utf8_decoder c k l h bs)
      else if unat b < lower \<or> upper < unat b then
        0xFFFD # (case utf8_lead_byte (unat b) of
           Emit c \<Rightarrow> c # utf8_decoder 0 0 0x80 0xBF bs
         | Need c k l h \<Rightarrow> utf8_decoder c k l h bs)
      else if needed = 1 then (cp * 0x40 + unat b mod 0x40) # utf8_decoder 0 0 0x80 0xBF bs
      else utf8_decoder (cp * 0x40 + unat b mod 0x40) (needed - 1) 0x80 0xBF bs)"

definition utf16_units :: "nat \<Rightarrow> jsstring" where
  "utf16_units c =
     (if c < 0x10000 then [of_nat c]
      else [of_nat (0xD800 + (c - 0x10000) div 0x400), of_nat (0xDC00 + (c - 0x10000) mod 0x400)])"

definition TextDecoder_decode :: "bytes \<Rightarrow> jsstring" where
  "TextDecoder_decode bs =
     (let cps = utf8_decoder 0 0 0x80 0xBF bs;
          cps' = (case cps of c # r \<Rightarrow> if c = 0xFEFF then r else cps | [] \<Rightarrow> cps)
      in concat (map utf16_units cps'))"

subsection \<open>JSON.stringify and JSON.parse\<close>

text \<open>
  The source serialises one shape of value, an object whose members are strings, and
  parses it back.  \<open>JSON_stringify\<close> is \<^verbatim>\<open>JSON.stringify\<close> on such an object, with the
  escapes of \<^verbatim>\<open>QuoteJSONString\<close>.  \<open>JSON_parse\<close> reads the texts of that shape whose
  strings hold no escape and which have no white space between tokens; every other text
  gives \<open>None\<close>, which the callers below treat as the parser's \<open>SyntaxError\<close>.  A property
  read takes the last entry of that name.
\<close>

definition json_escape_unit :: "16 word \<Rightarrow> jsstring" where
  "json_escape_unit u =
     (if u = 0x08 then [0x5C, 0x62]
      else if u = 0x09 then [0x5C, 0x74]
      else if u = 0x0A then [0x5C, 0x6E]
      else if u = 0x0C then [0x5C, 0x66]
      else if u = 0x0D then [0x5C, 0x72]
      else if u = 0x22 then [0x5C, 0x22]
      else if u = 0x5C then [0x5C, 0x5C]
      else if u < 0x20 \<or> is_high_surrogate u \<or> is_low_surrogate u
        then [0x5C, 0x75] @ padStart 4 0x30 (toString16 (unat u))
      else [u])"

fun json_escape :: "jsstring \<Rightarrow> jsstring" where
  "json_escape [] = []"
| "json_escape [u] = json_escape_unit u"
| "json_escape (u # v # r) =
     (if is_high_surrogate u \<and> is_low_surrogate v then u # v # json_escape r
      else json_escape_unit u @ json_escape (v # r))"

definition QuoteJSONString :: "jsstring \<Rightarrow> jsstring" where
  "QuoteJSONString s = [0x22] @ json_escape s @ [0x22]"

fun join :: "jsstring \<Rightarrow> jsstring list \<Rightarrow> jsstring" where
  "join sep [] = []"
| "join sep [x] = x"
| "join sep (x # y # r) = x @ sep @ join sep (y # r)"

definition JSON_stringify :: "(jsstring \<times> jsstring) list \<Rightarrow> jsstring" where
  "JSON_stringify members =
     [0x7B] @ join [0x2C] (map (\<lambda>(k, v). QuoteJSONString k @ [0x3A] @ QuoteJSONString v) members) @ [0x7D]"

fun json_string_body :: "jsstring \<Rightarrow> (jsstring \<times> jsstring) option" where
  "json_string_body [] = None"
| "json_string_body (u # r) =
     (if u = 0x22 then Some ([], r)
      else if u = 0x5C \<or> u < 0x20 then None
      else (case json_string_body r of None \<Rightarrow> None | Some (s, r') \<Rightarrow> Some (u # s, r')))"

lemma json_string_body_shorter: "json_string_body t = Some (s, r) \<Longrightarrow> length r < length t"
  by (induction t arbitrary: s r) (auto split: if_splits option.splits)

function json_members :: "jsstring \<Rightarrow> (jsstring \<times> jsstring) list option" where
  "json_members t =
     (case t of
        [] \<Rightarrow> None
      | q # t1 \<Rightarrow>
          if q \<noteq> 0x22 then None
          else (case json_string_body t1 of
                  None \<Rightarrow> None
                | Some (k, t2) \<Rightarrow>
                    (case t2 of
                       c # q' # t3 \<Rightarrow>
                         if c \<noteq> 0x3A \<or> q' \<noteq> 0x22 then None
                         else (case json_string_body t3 of
                                 None \<Rightarrow> None
                               | Some (v, t4) \<Rightarrow>
                                   (case t4 of
                                      [] \<Rightarrow> None
                                    | d # t5 \<Rightarrow>
                                        if d = 0x7D \<and> t5 = [] then Some [(k, v)]
                                        else if d = 0x2C then
                                          (case json_members t5 of
                                             None \<Rightarrow> None
                                           | Some ms \<Rightarrow> Some ((k, v) # ms))
                                        else None))
                     | _ \<Rightarrow> None)))"
  by pat_completeness auto
termination
proof (relation "measure length", goal_cases)
  case 1
  then show ?case by simp
next
  case (2 t q t1 x2 k t2 c t2' q' t3 x2' v t4 d t5)
  then show ?case
    by (auto dest!: json_string_body_shorter)
qed

declare json_members.simps [simp del]

definition JSON_parse :: "jsstring \<Rightarrow> (jsstring \<times> jsstring) list option" where
  "JSON_parse t =
     (case t of
        [] \<Rightarrow> None
      | b # r \<Rightarrow> if b \<noteq> 0x7B then None else if r = [0x7D] then Some [] else json_members r)"

definition get_member :: "(jsstring \<times> jsstring) list \<Rightarrow> jsstring \<Rightarrow> jsstring option" where
  "get_member obj k = map_of (rev obj) k"

subsection \<open>crypto.getRandomValues and crypto.subtle\<close>

text \<open>
  The random source is the sequence of octets it will deliver next; a source that cannot
  deliver the octets asked for is unavailable.  AES-GCM itself is not part of the
  repository: \<^verbatim>\<open>crypto.subtle.encrypt\<close> and \<^verbatim>\<open>decrypt\<close> are the two fields of
  \<open>subtle_crypto\<close>, taking key, nonce and data.  \<^verbatim>\<open>importKey('raw', ...)\<close> for AES accepts
  keys of 128, 192 and 256 bits and raises \<open>DataError\<close> on any other length.
\<close>

type_synonym csprng = "8 word list"

definition getRandomValues :: "nat \<Rightarrow> csprng \<Rightarrow> exn + (bytes \<times> csprng)" where
  "getRandomValues n g =
     (if n \<le> length g then Inr (take n g, drop n g) else Inl RandomSourceUnavailable)"

record subtle_crypto =
  AES_GCM_encrypt :: "bytes \<Rightarrow> bytes \<Rightarrow> bytes \<Rightarrow> bytes"
  AES_GCM_decrypt :: "bytes \<Rightarrow> bytes \<Rightarrow> bytes \<Rightarrow> bytes option"

definition importKey_raw :: "bytes \<Rightarrow> exn + bytes" where
  "importKey_raw keyData =
     (if length keyData = 16 \<or> length keyData = 24 \<or> length keyData = 32 then Inr keyData
      else Inl DataError)"

section \<open>class KMSService\<close>

text \<open>
  \<^verbatim>\<open>
  constructor() {
    this.masterKey = Deno.env.get('MASTER_ENCRYPTION_KEY') || 'default-key-for-dev';
  }
  async generateDEK(): Promise<string> {
    const dek = new Uint8Array(32);
    crypto.getRandomValues(dek);
    return this.uint8ArrayToHex(dek);
  }
  async encryptDEK(dek: string): Promise<string> {
    const encoder = new TextEncoder();
    const dekBytes = encoder.encode(dek);
    const key = await crypto.subtle.importKey('raw',
      encoder.encode(this.masterKey.padEnd(32, '0').slice(0, 32)),
      { name: 'AES-GCM' }, false, ['encrypt']);
    const iv = crypto.getRandomValues(new Uint8Array(12));
    const encrypted = await crypto.subtle.encrypt({ name: 'AES-GCM', iv }, key, dekBytes);
    return JSON.stringify({
      encrypted: this.uint8ArrayToHex(new Uint8Array(encrypted)),
      iv: this.uint8ArrayToHex(iv)
    });
  }
  \<close>
  \<open>decryptDEK\<close> and \<open>encryptFile\<close> follow the source in the same way; in
  \<open>encryptFile\<close> the tag is \<^verbatim>\<open>encryptedArray.slice(-16)\<close> and the ciphertext
  \<^verbatim>\<open>encryptedArray.slice(0, -16)\<close>.  Each function takes the random source and returns
  what is left of it.
\<close>

record EncryptionResult =
  encryptedData :: bytes
  iv :: jsstring
  authTag :: jsstring

definition KMSService_new :: "jsstring option \<Rightarrow> jsstring" where
  "KMSService_new MASTER_ENCRYPTION_KEY =
     (case MASTER_ENCRYPTION_KEY of
        None \<Rightarrow> js ''default-key-for-dev''
      | Some v \<Rightarrow> if v = [] then js ''default-key-for-dev'' else v)"

definition generateDEK :: "csprng \<Rightarrow> exn + (jsstring \<times> csprng)" where
  "generateDEK g =
     (case getRandomValues 32 g of
        Inl e \<Rightarrow> Inl e
      | Inr (dek, g') \<Rightarrow> Inr (uint8ArrayToHex dek, g'))"

definition encryptDEK :: "subtle_crypto \<Rightarrow> jsstring \<Rightarrow> jsstring \<Rightarrow> csprng \<Rightarrow> exn + (jsstring \<times> csprng)" where
  "encryptDEK sc masterKey dek g =
     (let dekBytes = TextEncoder_encode dek in
      case importKey_raw (TextEncoder_encode (take 32 (padEnd 32 0x30 masterKey))) of
        Inl e \<Rightarrow> Inl e
      | Inr key \<Rightarrow>
          (case getRandomValues 12 g of
             Inl e \<Rightarrow> Inl e
           | Inr (nonce, g') \<Rightarrow>
               let encrypted = AES_GCM_encrypt sc key nonce dekBytes
               in Inr (JSON_stringify [(js ''encrypted'', uint8ArrayToHex encrypted),
                                       (js ''iv'', uint8ArrayToHex nonce)], g')))"

definition decryptDEK :: "subtle_crypto \<Rightarrow> jsstring \<Rightarrow> jsstring \<Rightarrow> exn + jsstring" where
  "decryptDEK sc masterKey encryptedDEK =
     (case JSON_parse encryptedDEK of
        None \<Rightarrow> Inl SyntaxError
      | Some obj \<Rightarrow>
          (case importKey_raw (TextEncoder_encode (take 32 (padEnd 32 0x30 masterKey))) of
             Inl e \<Rightarrow> Inl e
           | Inr key \<Rightarrow>
               (case get_member obj (js ''iv'') of
                  None \<Rightarrow> Inl TypeError
                | Some nonce \<Rightarrow>
                    (case get_member obj (js ''encrypted'') of
                       None \<Rightarrow> Inl TypeError
                     | Some encrypted \<Rightarrow>
                         (case AES_GCM_decrypt sc key (hexToUint8Array nonce) (hexToUint8Array encrypted) of
                            None \<Rightarrow> Inl OperationError
                          | Some decrypted \<Rightarrow> Inr (TextDecoder_decode decrypted))))))"

definition encryptFile :: "subtle_crypto \<Rightarrow> bytes \<Rightarrow> jsstring \<Rightarrow> csprng \<Rightarrow> exn + (EncryptionResult \<times> csprng)" where
  "encryptFile sc data dek g =
     (case importKey_raw (hexToUint8Array dek) of
        Inl e \<Rightarrow> Inl e
      | Inr key \<Rightarrow>
          (case getRandomValues 12 g of
             Inl e \<Rightarrow> Inl e
           | Inr (nonce, g') \<Rightarrow>
               let encryptedArray = AES_GCM_encrypt sc key nonce data;
                   tag = drop (length encryptedArray - 16) encryptedArray;
                   ciphertext = take (length encryptedArray - 16) encryptedArray
               in Inr (\<lparr>encryptedData = ciphertext,
                        iv = uint8ArrayToHex nonce,
                        authTag = uint8ArrayToHex tag\<rparr>, g')))"

section \<open>AIProviderFactory (RAG handler)\<close>

text \<open>
  \<^verbatim>\<open>
  class AIProviderFactory {
    static create(provider: string): AIProvider {
      switch (provider.toLowerCase()) {
        case 'openai': return new OpenAIProvider()
        case 'gemini': return new GeminiProvider()
        default:       return new OpenAIProvider() // Default fallback
      }
    }
  }
  \<close>
  \<^verbatim>\<open>String.prototype.toLowerCase\<close> is the platform's Unicode lower-casing; the factory
  takes it as the parameter \<open>toLowerCase\<close>.  \<open>toLowerCase_ascii\<close> is that function on
  strings of ASCII code units.
\<close>

datatype AIProvider = OpenAIProvider | GeminiProvider

definition toLowerCase_ascii :: "jsstring \<Rightarrow> jsstring" where
  "toLowerCase_ascii s = map (\<lambda>u. if 0x41 \<le> u \<and> u \<le> 0x5A then u + 0x20 else u) s"

definition AIProviderFactory_create :: "(jsstring \<Rightarrow> jsstring) \<Rightarrow> jsstring \<Rightarrow> AIProvider" where
  "AIProviderFactory_create toLowerCase provider =
     (let name = toLowerCase provider in
      if name = js ''openai'' then OpenAIProvider
      else if name = js ''gemini'' then GeminiProvider
      else OpenAIProvider)"

section \<open>The database and the storage buckets\<close>

text \<open>
  \<open>processing_queue\<close> is the table the migration creates:
  \<^verbatim>\<open>
  CREATE TABLE IF NOT EXISTS public.processing_queue (
      id UUID NOT NULL DEFAULT gen_random_uuid() PRIMARY KEY,
      document_id UUID REFERENCES public.documents(id) ON DELETE CASCADE,
      task_type TEXT NOT NULL DEFAULT 'document_analysis',
      status TEXT NOT NULL DEFAULT 'queued'
        CHECK (status IN ('queued', 'processing', 'completed', 'failed')),
      task_data JSONB DEFAULT '{}'::jsonb,
      error_message TEXT,
      created_at TIMESTAMP WITH TIME ZONE NOT NULL DEFAULT now(),
      updated_at TIMESTAMP WITH TIME ZONE NOT NULL DEFAULT now()
  );
  \<close>
  A \<open>queue_row\<close> holds these columns but the two time stamps, which nothing reads.  The
  table has no column \<^verbatim>\<open>user_id\<close>, \<^verbatim>\<open>started_at\<close> or \<^verbatim>\<open>completed_at\<close>, and its
  \<^verbatim>\<open>CHECK\<close> admits four values of \<^verbatim>\<open>status\<close>: \<open>processing_queue_columns\<close> and
  \<open>processing_queue_status_check\<close>.  The other rows hold the columns the uploader and the
  handler read or write; a time stamp is the instant it denotes.  \<open>world\<close> is everything
  the invocations share: the tables, the two buckets and the random source.
\<close>

type_synonym instant = nat

record queue_row =
  q_id :: jsstring
  q_document_id :: "jsstring option"
  q_task_type :: jsstring
  q_status :: jsstring
  q_task_data :: jsstring
  q_error_message :: "jsstring option"

definition processing_queue_columns :: "jsstring list" where
  "processing_queue_columns =
     [js ''id'', js ''document_id'', js ''task_type'', js ''status'', js ''task_data'',
      js ''error_message'', js ''created_at'', js ''updated_at'']"

definition processing_queue_status_check :: "jsstring \<Rightarrow> bool" where
  "processing_queue_status_check status \<longleftrightarrow>
     status \<in> set [js ''queued'', js ''processing'', js ''completed'', js ''failed'']"

record document_row =
  d_id :: jsstring
  d_file_path :: jsstring
  d_status :: jsstring
  d_processed_at :: "instant option"

record encryption_key_row =
  k_id :: jsstring
  k_key_id :: jsstring
  k_encrypted_dek :: jsstring
  k_created_by :: "jsstring option"

record document_encryption_row =
  m_document_id :: jsstring
  m_encryption_key_id :: jsstring
  m_encrypted_path :: jsstring
  m_iv :: jsstring
  m_auth_tag :: jsstring

record world =
  processing_queue :: "queue_row list"
  documents :: "document_row list"
  encryption_keys :: "encryption_key_row list"
  document_encryption :: "document_encryption_row list"
  bucket_documents :: "(jsstring \<times> bytes) list"
  bucket_encrypted_documents :: "(jsstring \<times> bytes) list"
  rng :: csprng

text \<open>
  What one invocation gets from outside: the configured master secret, for each request
  to the backend the error it answers with when the request fails for a reason the tables
  do not determine (transport, policy), the readings of the clock that end up in a table
  or a path, and the identifier the database generates for the new key row.
\<close>

record env =
  MASTER_ENCRYPTION_KEY :: "jsstring option"
  fail_select_queue :: "jsstring option"
  fail_update_processing :: "jsstring option"
  fail_select_document :: "jsstring option"
  fail_download :: "jsstring option"
  fail_insert_key :: "jsstring option"
  fail_upload :: "jsstring option"
  fail_insert_metadata :: "jsstring option"
  fail_update_document :: "jsstring option"
  fail_update_completed :: "jsstring option"
  now_keyId :: instant
  now_encryptedPath :: instant
  now_processed :: instant
  new_key_uuid :: jsstring

subsection \<open>Requests of the Supabase client\<close>

text \<open>
  Each request answers with its data or with an error message.  \<^verbatim>\<open>.single()\<close> is an
  error unless exactly one row matches.  An update changes nothing when its request fails,
  and the handler does not look at its answer.  An update of \<^verbatim>\<open>processing_queue\<close> is
  refused, and changes nothing, when it names a column the table does not have or would
  leave a row that fails the \<^verbatim>\<open>CHECK\<close>; \<open>columns\<close> are the names in the object
  passed to \<^verbatim>\<open>.update()\<close>, \<open>change\<close> is what that object does to the columns a
  \<open>queue_row\<close> holds.
\<close>

definition single_row :: "'a list \<Rightarrow> jsstring + 'a" where
  "single_row rows =
     (case rows of
        [r] \<Rightarrow> Inr r
      | _ \<Rightarrow> Inl (js ''JSON object requested, multiple (or no) rows returned''))"

definition select_queue_item :: "jsstring option \<Rightarrow> jsstring \<Rightarrow> world \<Rightarrow> jsstring + queue_row" where
  "select_queue_item fault documentId w =
     (case fault of
        Some message \<Rightarrow> Inl message
      | None \<Rightarrow> single_row (filter (\<lambda>r. q_document_id r = Some documentId \<and> q_status r = js ''pending'')
                         (processing_queue w)))"

definition update_queue ::
    "jsstring option \<Rightarrow> jsstring list \<Rightarrow> jsstring \<Rightarrow> (queue_row \<Rightarrow> queue_row) \<Rightarrow> world \<Rightarrow> world" where
  "update_queue fault columns ident change w =
     (case fault of
        Some message \<Rightarrow> w
      | None \<Rightarrow>
          if (\<forall>c \<in> set columns. c \<in> set processing_queue_columns) \<and>
             (\<forall>r \<in> set (processing_queue w).
                q_id r = ident \<longrightarrow> processing_queue_status_check (q_status (change r)))
          then w\<lparr>processing_queue :=
                   map (\<lambda>r. if q_id r = ident then change r else r) (processing_queue w)\<rparr>
          else w)"

definition select_document :: "jsstring option \<Rightarrow> jsstring \<Rightarrow> world \<Rightarrow> jsstring + document_row" where
  "select_document fault documentId w =
     (case fault of
        Some message \<Rightarrow> Inl message
      | None \<Rightarrow> single_row (filter (\<lambda>d. d_id d = documentId) (documents w)))"

definition update_documents :: "jsstring option \<Rightarrow> jsstring \<Rightarrow> (document_row \<Rightarrow> document_row) \<Rightarrow> world \<Rightarrow> world" where
  "update_documents fault ident change w =
     (case fault of
        Some message \<Rightarrow> w
      | None \<Rightarrow> w\<lparr>documents := map (\<lambda>d. if d_id d = ident then change d else d) (documents w)\<rparr>)"

definition storage_download :: "jsstring option \<Rightarrow> jsstring \<Rightarrow> world \<Rightarrow> jsstring + bytes" where
  "storage_download fault path w =
     (case fault of
        Some message \<Rightarrow> Inl message
      | None \<Rightarrow> (case map_of (bucket_documents w) path of
                   None \<Rightarrow> Inl (js ''Object not found'')
                 | Some content \<Rightarrow> Inr content))"

definition storage_upload :: "jsstring option \<Rightarrow> jsstring \<Rightarrow> bytes \<Rightarrow> world \<Rightarrow> jsstring + world" where
  "storage_upload fault path content w =
     (case fault of
        Some message \<Rightarrow> Inl message
      | None \<Rightarrow> (case map_of (bucket_encrypted_documents w) path of
                   Some existing \<Rightarrow> Inl (js ''The resource already exists'')
                 | None \<Rightarrow> Inr (w\<lparr>bucket_encrypted_documents := bucket_encrypted_documents w @ [(path, content)]\<rparr>)))"

definition insert_encryption_key ::
    "jsstring option \<Rightarrow> encryption_key_row \<Rightarrow> world \<Rightarrow> jsstring + (encryption_key_row \<times> world)" where
  "insert_encryption_key fault row w =
     (case fault of
        Some message \<Rightarrow> Inl message
      | None \<Rightarrow> Inr (row, w\<lparr>encryption_keys := encryption_keys w @ [row]\<rparr>))"

definition insert_document_encryption ::
    "jsstring option \<Rightarrow> document_encryption_row \<Rightarrow> world \<Rightarrow> jsstring + world" where
  "insert_document_encryption fault row w =
     (case fault of
        Some message \<Rightarrow> Inl message
      | None \<Rightarrow> Inr (w\<lparr>document_encryption := document_encryption w @ [row]\<rparr>))"

section \<open>The request handler of document-processor\<close>

text \<open>
  The handler is a sequence of awaited requests inside one \<^verbatim>\<open>try\<close> block; at each
  \<^verbatim>\<open>await\<close> other invocations may run.  An \<open>invocation\<close> is the handler stopped before
  its next request to the backend, with the local variables assigned so far
  (\<open>l_documentId\<close> for \<^verbatim>\<open>documentId\<close>, and so on), or returned with its response.
  \<open>step\<close> runs it up to the next stop:
  \<^item> \<open>Received\<close>: lines 123-153, up to the \<^verbatim>\<open>select\<close> on \<^verbatim>\<open>processing_queue\<close>
    with \<^verbatim>\<open>.eq('document_id', documentId).eq('status', 'pending').single()\<close>;
  \<^item> \<open>Claiming\<close>: lines 155-162, the update with
    \<^verbatim>\<open>{ status: 'processing', started_at: new Date().toISOString() }\<close> and
    \<^verbatim>\<open>.eq('id', queueItem.id)\<close>;
  \<^item> \<open>Loading\<close>, \<open>Downloading\<close>: lines 164-187, the document row and the file;
  \<^item> \<open>StoringKey\<close>: lines 189-207, \<^verbatim>\<open>generateDEK\<close>, \<^verbatim>\<open>encryptDEK\<close> and the insert
    into \<^verbatim>\<open>encryption_keys\<close>;
  \<^item> \<open>Uploading\<close>: lines 209-225, \<^verbatim>\<open>encryptFile\<close> and the upload;
  \<^item> \<open>StoringMetadata\<close>: lines 227-240, the insert into \<^verbatim>\<open>document_encryption\<close>;
  \<^item> \<open>FlippingDocument\<close>: lines 242-249, the update of the document to
    \<^verbatim>\<open>'encrypted'\<close>;
  \<^item> \<open>Completing\<close>: lines 251-274, the update with
    \<^verbatim>\<open>{ status: 'completed', completed_at: new Date().toISOString() }\<close>,
    \<^verbatim>\<open>fileBytes.fill(0)\<close> and the response.
  A \<^verbatim>\<open>throw\<close> lands in the \<^verbatim>\<open>catch\<close> block of lines 276-289, which logs the error
  and answers with status 500: \<open>caught\<close>.  \<open>memory\<close> is what the buffer \<^verbatim>\<open>fileBytes\<close>
  and the string \<^verbatim>\<open>dek\<close> hold when the handler returns (\<open>None\<close>: never assigned).
  \<^verbatim>\<open>queueItem.user_id\<close> is a property the selected row does not have, so the key row
  is inserted without \<^verbatim>\<open>created_by\<close>.
\<close>

datatype request_body = Unparsable | Body "jsstring option"

record request =
  req_method :: jsstring
  req_body :: request_body

datatype response =
    Preflight
  | Success jsstring jsstring
  | Failure exn

record memory =
  mem_fileBytes :: "bytes option"
  mem_dek :: "jsstring option"

record locals1 =
  l_documentId :: jsstring
  l_masterKey :: jsstring
  l_queueItem :: queue_row

record locals2 = locals1 +
  l_document :: document_row

record locals3 = locals2 +
  l_fileBytes :: bytes

record locals4 = locals3 +
  l_dek :: jsstring
  l_encryptedDEK :: jsstring
  l_keyId :: jsstring
  l_encryptionKey :: encryption_key_row

record locals5 = locals4 +
  l_encryptionResult :: EncryptionResult
  l_encryptedPath :: jsstring

datatype invocation =
    Received request
  | Claiming locals1
  | Loading locals1
  | Downloading locals2
  | StoringKey locals3
  | Uploading locals4
  | StoringMetadata locals5
  | FlippingDocument locals5
  | Completing locals5
  | Returned response memory

definition caught :: "exn \<Rightarrow> bytes option \<Rightarrow> jsstring option \<Rightarrow> invocation" where
  "caught e buffer key = Returned (Failure e) \<lparr>mem_fileBytes = buffer, mem_dek = key\<rparr>"

fun step :: "subtle_crypto \<Rightarrow> env \<Rightarrow> invocation \<Rightarrow> world \<Rightarrow> invocation \<times> world" where
  "step sc env (Received req) w =
     (if req_method req = js ''OPTIONS'' then (Returned Preflight \<lparr>mem_fileBytes = None, mem_dek = None\<rparr>, w)
      else case req_body req of
        Unparsable \<Rightarrow> (caught SyntaxError None None, w)
      | Body None \<Rightarrow> (caught (Error (js ''Document ID is required'')) None None, w)
      | Body (Some documentId) \<Rightarrow>
          if documentId = [] then (caught (Error (js ''Document ID is required'')) None None, w)
          else
            let kms = KMSService_new (MASTER_ENCRYPTION_KEY env) in
            (case select_queue_item (fail_select_queue env) documentId w of
               Inl message \<Rightarrow> (caught (Error (js ''Queue item not found: '' @ message)) None None, w)
             | Inr queueItem \<Rightarrow>
                 (Claiming \<lparr>l_documentId = documentId, l_masterKey = kms, l_queueItem = queueItem\<rparr>, w)))"
| "step sc env (Claiming l) w =
     (Loading l,
      update_queue (fail_update_processing env) [js ''status'', js ''started_at'']
        (q_id (l_queueItem l)) (\<lambda>r. r\<lparr>q_status := js ''processing''\<rparr>) w)"
| "step sc env (Loading l) w =
     (case select_document (fail_select_document env) (l_documentId l) w of
        Inl message \<Rightarrow> (caught (Error (js ''Document not found: '' @ message)) None None, w)
      | Inr document \<Rightarrow> (Downloading (locals1.extend l (locals2.fields document)), w))"
| "step sc env (Downloading l) w =
     (case storage_download (fail_download env) (d_file_path (l_document l)) w of
        Inl message \<Rightarrow> (caught (Error (js ''File download failed: '' @ message)) None None, w)
      | Inr fileData \<Rightarrow> (StoringKey (locals2.extend l (locals3.fields fileData)), w))"
| "step sc env (StoringKey l) w =
     (case generateDEK (rng w) of
        Inl e \<Rightarrow> (caught e (Some (l_fileBytes l)) None, w)
      | Inr (dek, g1) \<Rightarrow>
          (case encryptDEK sc (l_masterKey l) dek g1 of
             Inl e \<Rightarrow> (caught e (Some (l_fileBytes l)) (Some dek), w\<lparr>rng := g1\<rparr>)
           | Inr (encryptedDEK, g2) \<Rightarrow>
               let keyId = js ''key_'' @ l_documentId l @ js ''_'' @ toString10 (now_keyId env);
                   row = \<lparr>k_id = new_key_uuid env, k_key_id = keyId, k_encrypted_dek = encryptedDEK,
                          k_created_by = None\<rparr>
               in (case insert_encryption_key (fail_insert_key env) row (w\<lparr>rng := g2\<rparr>) of
                     Inl message \<Rightarrow>
                       (caught (Error (js ''Failed to create encryption key: '' @ message))
                          (Some (l_fileBytes l)) (Some dek), w\<lparr>rng := g2\<rparr>)
                   | Inr (encryptionKey, w') \<Rightarrow>
                       (Uploading (locals3.extend l (locals4.fields dek encryptedDEK keyId encryptionKey)), w'))))"
| "step sc env (Uploading l) w =
     (case encryptFile sc (l_fileBytes l) (l_dek l) (rng w) of
        Inl e \<Rightarrow> (caught e (Some (l_fileBytes l)) (Some (l_dek l)), w)
      | Inr (encryptionResult, g) \<Rightarrow>
          let encryptedPath = js ''encrypted/'' @ l_documentId l @ js ''_'' @ toString10 (now_encryptedPath env) @ js ''.enc''
          in (case storage_upload (fail_upload env) encryptedPath (encryptedData encryptionResult) (w\<lparr>rng := g\<rparr>) of
                Inl message \<Rightarrow>
                  (caught (Error (js ''Encrypted file upload failed: '' @ message))
                     (Some (l_fileBytes l)) (Some (l_dek l)), w\<lparr>rng := g\<rparr>)
              | Inr w' \<Rightarrow>
                  (StoringMetadata (locals4.extend l (locals5.fields encryptionResult encryptedPath)), w')))"
| "step sc env (StoringMetadata l) w =
     (case insert_document_encryption (fail_insert_metadata env)
             \<lparr>m_document_id = l_documentId l, m_encryption_key_id = k_id (l_encryptionKey l),
              m_encrypted_path = l_encryptedPath l, m_iv = iv (l_encryptionResult l),
              m_auth_tag = authTag (l_encryptionResult l)\<rparr> w of
        Inl message \<Rightarrow>
          (caught (Error (js ''Failed to store encryption metadata: '' @ message))
             (Some (l_fileBytes l)) (Some (l_dek l)), w)
      | Inr w' \<Rightarrow> (FlippingDocument l, w'))"
| "step sc env (FlippingDocument l) w =
     (Completing l,
      update_documents (fail_update_document env) (l_documentId l)
        (\<lambda>d. d\<lparr>d_status := js ''encrypted'', d_processed_at := Some (now_processed env)\<rparr>) w)"
| "step sc env (Completing l) w =
     (Returned (Success (l_encryptedPath l) (l_keyId l))
        \<lparr>mem_fileBytes = Some (map (\<lambda>b. 0) (l_fileBytes l)), mem_dek = Some (l_dek l)\<rparr>,
      update_queue (fail_update_completed env) [js ''status'', js ''completed_at'']
        (q_id (l_queueItem l)) (\<lambda>r. r\<lparr>q_status := js ''completed''\<rparr>) w)"
| "step sc env (Returned r m) w = (Returned r m, w)"

text \<open>
  One invocation run to its response.  Every step moves the invocation forward, so the
  run ends.
\<close>

fun progress :: "invocation \<Rightarrow> nat" where
  "progress (Received req) = 0"
| "progress (Claiming l) = 1"
| "progress (Loading l) = 2"
| "progress (Downloading l) = 3"
| "progress (StoringKey l) = 4"
| "progress (Uploading l) = 5"
| "progress (StoringMetadata l) = 6"
| "progress (FlippingDocument l) = 7"
| "progress (Completing l) = 8"
| "progress (Returned r m) = 9"

fun outcome :: "invocation \<Rightarrow> (response \<times> memory) option" where
  "outcome (Returned r m) = Some (r, m)"
| "outcome i = None"

lemma progress_le_9: "progress i \<le> 9"
  by (cases i) simp_all

lemma step_progress: "outcome i = None \<Longrightarrow> progress i < progress (fst (step sc env i w))"
  by (cases i)
    (auto simp: caught_def Let_def split: sum.splits option.splits request_body.splits prod.splits)

function serve_from :: "subtle_crypto \<Rightarrow> env \<Rightarrow> invocation \<Rightarrow> world \<Rightarrow> response \<times> memory \<times> world" where
  "serve_from sc env i w =
     (case outcome i of
        Some (r, m) \<Rightarrow> (r, m, w)
      | None \<Rightarrow> (case step sc env i w of (i', w') \<Rightarrow> serve_from sc env i' w'))"
  by pat_completeness auto
termination
proof (relation "measure (\<lambda>(sc, env, i, w). 9 - progress i)", goal_cases)
  case 1
  then show ?case by simp
next
  case (2 sc env i w i' w')
  from 2(2) have "i' = fst (step sc env i w)" by (metis fst_conv)
  with step_progress [OF 2(1), of sc env w] progress_le_9 [of i'] show ?case by simp
qed

declare serve_from.simps [simp del]

definition serve :: "subtle_crypto \<Rightarrow> env \<Rightarrow> request \<Rightarrow> world \<Rightarrow> response \<times> memory \<times> world" where
  "serve sc env req w = serve_from sc env (Received req) w"

section \<open>The upload flow and the queue\<close>

text \<open>
  \<open>upload_document\<close> is what \<^verbatim>\<open>DocumentUploader\<close> does before it enqueues: the file goes
  to the bucket \<^verbatim>\<open>documents\<close> and a row with status \<^verbatim>\<open>'uploaded'\<close> into the table.
  \<open>enqueue_document_processing\<close> is the SQL function of that name: one insert into
  \<^verbatim>\<open>processing_queue\<close>, the status left to the column default.
\<close>

definition upload_document :: "jsstring \<Rightarrow> jsstring \<Rightarrow> bytes \<Rightarrow> world \<Rightarrow> world" where
  "upload_document new_id filePath content w =
     w\<lparr>bucket_documents := bucket_documents w @ [(filePath, content)],
       documents := documents w @
         [\<lparr>d_id = new_id, d_file_path = filePath, d_status = js ''uploaded'', d_processed_at = None\<rparr>]\<rparr>"

definition enqueue_document_processing ::
    "jsstring \<Rightarrow> jsstring \<Rightarrow> jsstring \<Rightarrow> jsstring \<Rightarrow> world \<Rightarrow> jsstring \<times> world" where
  "enqueue_document_processing queue_id p_document_id p_task_type p_task_data w =
     (queue_id,
      w\<lparr>processing_queue := processing_queue w @
         [\<lparr>q_id = queue_id, q_document_id = Some p_document_id, q_task_type = p_task_type,
           q_status = js ''queued'', q_task_data = p_task_data, q_error_message = None\<rparr>]\<rparr>)"

subsection \<open>Invocations running side by side\<close>

text \<open>
  A run of the system is a list of events: an upload, an enqueue, the arrival of a request
  (a new invocation), or one step of the invocation at a given position.
\<close>

datatype event =
    Upload jsstring jsstring bytes
  | Enqueue jsstring jsstring jsstring jsstring
  | Request request
  | Advance nat env

fun apply_event :: "subtle_crypto \<Rightarrow> event \<Rightarrow> invocation list \<times> world \<Rightarrow> invocation list \<times> world" where
  "apply_event sc (Upload new_id filePath content) (pool, w) = (pool, upload_document new_id filePath content w)"
| "apply_event sc (Enqueue queue_id p_document_id p_task_type p_task_data) (pool, w) =
     (pool, snd (enqueue_document_processing queue_id p_document_id p_task_type p_task_data w))"
| "apply_event sc (Request req) (pool, w) = (pool @ [Received req], w)"
| "apply_event sc (Advance k env) (pool, w) =
     (if k < length pool
      then (case step sc env (pool ! k) w of (i, w') \<Rightarrow> (pool[k := i], w'))
      else (pool, w))"

definition exec :: "subtle_crypto \<Rightarrow> event list \<Rightarrow> invocation list \<times> world \<Rightarrow> invocation list \<times> world" where
  "exec sc events s = foldl (\<lambda>s e. apply_event sc e s) s events"

definition empty_world :: "csprng \<Rightarrow> world" where
  "empty_world g =
     \<lparr>processing_queue = [], documents = [], encryption_keys = [], document_encryption = [],
      bucket_documents = [], bucket_encrypted_documents = [], rng = g\<rparr>"

section \<open>Properties\<close>

text \<open>
  Hexadecimal text in lower case; strings of ASCII code units; strings that JSON leaves
  unescaped.
\<close>

definition lowercase_hex :: "jsstring \<Rightarrow> bool" where
  "lowercase_hex s \<longleftrightarrow> (\<forall>u \<in> set s. u \<in> set (js ''0123456789abcdef''))"

definition is_ascii :: "jsstring \<Rightarrow> bool" where
  "is_ascii s \<longleftrightarrow> (\<forall>u \<in> set s. u < 0x80)"

definition plain :: "jsstring \<Rightarrow> bool" where
  "plain s \<longleftrightarrow> (\<forall>u \<in> set s. 0x20 \<le> u \<and> u < 0x80 \<and> u \<noteq> 0x22 \<and> u \<noteq> 0x5C)"

text \<open>
  The master secret after \<^verbatim>\<open>padEnd(32, '0').slice(0, 32)\<close>, and the secrets whose
  normalised form is key material of a length AES accepts.
\<close>

definition normalized :: "jsstring \<Rightarrow> jsstring" where
  "normalized masterKey = take 32 (padEnd 32 0x30 masterKey)"

definition well_formed_master_secret :: "jsstring \<Rightarrow> bool" where
  "well_formed_master_secret masterKey \<longleftrightarrow>
     length (TextEncoder_encode (normalized masterKey)) \<in> {16, 24, 32}"

text \<open>
  What the theorems below ask of AES-GCM: the output is the data's length plus a
  128-bit tag, and decryption under the same key and nonce gives the data back.
\<close>

definition AES_GCM_tag_128 :: "subtle_crypto \<Rightarrow> bool" where
  "AES_GCM_tag_128 sc \<longleftrightarrow>
     (\<forall>key nonce data. length (AES_GCM_encrypt sc key nonce data) = length data + 16)"

definition AES_GCM_inverse :: "subtle_crypto \<Rightarrow> bool" where
  "AES_GCM_inverse sc \<longleftrightarrow>
     (\<forall>key nonce data. AES_GCM_decrypt sc key nonce (AES_GCM_encrypt sc key nonce data) = Some data)"

text \<open>
  A reader of the database finds metadata for every document whose status is
  \<^verbatim>\<open>'encrypted'\<close>.  \<open>reader_view\<close> is what such a reader sees: the documents with their
  status, and the documents the metadata rows refer to.
\<close>

definition metadata_before_status :: "world \<Rightarrow> bool" where
  "metadata_before_status w \<longleftrightarrow>
     (\<forall>d \<in> set (documents w). d_status d = js ''encrypted'' \<longrightarrow>
        (\<exists>m \<in> set (document_encryption w). m_document_id m = d_id d))"

definition reader_view :: "world \<Rightarrow> (jsstring \<times> jsstring) list \<times> jsstring list" where
  "reader_view w =
     (map (\<lambda>d. (d_id d, d_status d)) (documents w), map m_document_id (document_encryption w))"

text \<open>
  For the proof of that invariant: an invocation about to set the status has its metadata
  row in the table; \<open>quiet_step\<close> is a step that touches neither table and does not lead
  to that point.
\<close>

fun flip_ready :: "invocation \<Rightarrow> world \<Rightarrow> bool" where
  "flip_ready (FlippingDocument l) w \<longleftrightarrow>
     (\<exists>m \<in> set (document_encryption w). m_document_id m = l_documentId l)"
| "flip_ready i w \<longleftrightarrow> True"

definition quiet_step :: "invocation \<Rightarrow> world \<Rightarrow> invocation \<Rightarrow> world \<Rightarrow> bool" where
  "quiet_step i w i' w' \<longleftrightarrow>
     documents w' = documents w \<and> document_encryption w' = document_encryption w \<and>
     (\<forall>l. i' \<noteq> FlippingDocument l)"

definition system_invariant :: "invocation list \<times> world \<Rightarrow> bool" where
  "system_invariant s \<longleftrightarrow> metadata_before_status (snd s) \<and> (\<forall>i \<in> set (fst s). flip_ready i (snd s))"

text \<open>
  The states the queue table admits: every task satisfies the \<^verbatim>\<open>CHECK\<close> on its
  status.  Between two states, the documents and the metadata are the same.  The buffer
  \<^verbatim>\<open>fileBytes\<close> holds zeros only.
\<close>

definition processing_queue_check :: "world \<Rightarrow> bool" where
  "processing_queue_check w \<longleftrightarrow>
     (\<forall>r \<in> set (processing_queue w). processing_queue_status_check (q_status r))"


definition scrubbed :: "memory \<Rightarrow> bool" where
  "scrubbed m \<longleftrightarrow> (\<exists>n. mem_fileBytes m = Some (replicate n 0))"

section \<open>Test data\<close>

text \<open>
  A stand-in for AES-GCM that satisfies both properties above (it adds one to every octet
  and appends sixteen octets of nonce and key), a random source of 64 octets, an
  environment in which no request fails, and two states of the system: a document
  uploaded, and its task enqueued.  \<open>pending_world\<close> is the second with the task's status
  overwritten by \<^verbatim>\<open>'pending'\<close>, the status the handler selects: a state the table's
  \<^verbatim>\<open>CHECK\<close> does not admit, in which the steps behind the \<^verbatim>\<open>select\<close> can be run.
\<close>

definition test_tag :: "bytes \<Rightarrow> bytes \<Rightarrow> bytes" where
  "test_tag key nonce = take 16 (nonce @ key @ replicate 16 0)"

definition test_subtle :: subtle_crypto where
  "test_subtle =
     \<lparr>AES_GCM_encrypt = (\<lambda>key nonce data. map (\<lambda>b. b + 1) data @ test_tag key nonce),
      AES_GCM_decrypt = (\<lambda>key nonce ct.
         if 16 \<le> length ct \<and> drop (length ct - 16) ct = test_tag key nonce
         then Some (map (\<lambda>b. b - 1) (take (length ct - 16) ct))
         else None)\<rparr>"

definition test_rng :: csprng where
  "test_rng = map (\<lambda>i. of_nat (7 * i + 3)) [0 ..< 64]"

definition quiet :: env where
  "quiet =
     \<lparr>MASTER_ENCRYPTION_KEY = None,
      fail_select_queue = None, fail_update_processing = None, fail_select_document = None,
      fail_download = None, fail_insert_key = None, fail_upload = None,
      fail_insert_metadata = None, fail_update_document = None, fail_update_completed = None,
      now_keyId = 1001, now_encryptedPath = 1002, now_processed = 1003,
      new_key_uuid = js ''k1''\<rparr>"

definition post :: "jsstring \<Rightarrow> request" where
  "post ident = \<lparr>req_method = js ''POST'', req_body = Body (Some ident)\<rparr>"

definition uploaded_world :: world where
  "uploaded_world = upload_document (js ''d1'') (js ''documents/0.5.txt'') [0x68, 0x69, 0x21] (empty_world test_rng)"

definition queued_world :: world where
  "queued_world =
     snd (enqueue_document_processing (js ''q1'') (js ''d1'') (js ''document_analysis'') (js ''{}'') uploaded_world)"

definition pending_world :: world where
  "pending_world =
     queued_world\<lparr>processing_queue := map (\<lambda>r. r\<lparr>q_status := js ''pending''\<rparr>) (processing_queue queued_world)\<rparr>"

definition full_run :: "event list" where
  "full_run =
     [Request (post (js ''d1'')),
      Advance 0 quiet, Advance 0 quiet, Advance 0 quiet, Advance 0 quiet, Advance 0 quiet,
      Advance 0 quiet, Advance 0 quiet, Advance 0 quiet, Advance 0 quiet]"

section \<open>Hexadecimal text\<close>

lemma digit_cases:
  assumes "d < (16::nat)"
  obtains "d = 0" | "d = 1" | "d = 2" | "d = 3" | "d = 4" | "d = 5" | "d = 6" | "d = 7"
    | "d = 8" | "d = 9" | "d = 10" | "d = 11" | "d = 12" | "d = 13" | "d = 14" | "d = 15"
  using assms by atomize_elim presburger

lemma hex_value_digit_char: "d < 16 \<Longrightarrow> hex_value (digit_char d) = Some d"
  by (erule digit_cases) (simp_all add: hex_value_def digit_char_def)

lemma digit_char_not_space: "d < 16 \<Longrightarrow> \<not> is_white_space (digit_char d)"
  by (erule digit_cases) (simp_all add: is_white_space_def digit_char_def)

lemma digit_char_not_sign: "d < 16 \<Longrightarrow> digit_char d \<noteq> 0x2D \<and> digit_char d \<noteq> 0x2B \<and> digit_char d \<noteq> 0x78 \<and> digit_char d \<noteq> 0x58"
  by (erule digit_cases) (simp_all add: digit_char_def)

lemma parseInt16_two_digits:
  assumes "a < 16" "b < 16"
  shows "parseInt16 [digit_char a, digit_char b] = Some (int (16 * a + b))"
  using assms digit_char_not_space [OF assms(1)] digit_char_not_sign [OF assms(1)]
    digit_char_not_sign [OF assms(2)]
  by (simp add: parseInt16_def hex_value_digit_char)

lemma byte_to_hex:
  fixes b :: "8 word"
  shows "padStart 2 0x30 (toString16 (unat b)) = [digit_char (unat b div 16), digit_char (unat b mod 16)]"
proof -
  have lt: "unat b < 256" using unsigned_less [of b, where ?'a = nat] by simp
  show ?thesis
  proof (cases "unat b < 16")
    case True
    then show ?thesis
      by (simp add: toString16.simps [of "unat b"] padStart_def digit_char_def)
  next
    case False
    moreover from lt have "unat b div 16 < 16" by simp
    ultimately show ?thesis
      by (simp add: toString16.simps [of "unat b"] toString16.simps [of "unat b div 16"] padStart_def)
  qed
qed

lemma ToUint8_byte:
  fixes b :: "8 word"
  shows "ToUint8 (Some (int (16 * (unat b div 16) + unat b mod 16))) = b"
  by (simp add: ToUint8_def)

lemma byte_hex_roundtrip:
  fixes b :: "8 word"
  shows "ToUint8 (parseInt16 (padStart 2 0x30 (toString16 (unat b)))) = b"
proof -
  have lt: "unat b < 256" using unsigned_less [of b, where ?'a = nat] by simp
  then have "unat b div 16 < 16" "unat b mod 16 < 16" by simp_all
  then show ?thesis
    by (simp only: byte_to_hex parseInt16_two_digits ToUint8_byte)
qed

lemma length_uint8ArrayToHex: "length (uint8ArrayToHex bs) = 2 * length bs"
  by (induction bs) (simp_all add: uint8ArrayToHex_def byte_to_hex)

lemma substr_uint8ArrayToHex:
  "k < length bs \<Longrightarrow>
     substr (uint8ArrayToHex bs) (2 * k) 2 = padStart 2 0x30 (toString16 (unat (bs ! k)))"
proof (induction bs arbitrary: k)
  case Nil
  then show ?case by simp
next
  case (Cons b bs)
  show ?case
  proof (cases k)
    case 0
    then show ?thesis
      by (simp add: substr_def uint8ArrayToHex_def byte_to_hex)
  next
    case (Suc j)
    with Cons.prems have "j < length bs" by simp
    from Cons.IH [OF this] Suc show ?thesis
      by (simp add: substr_def uint8ArrayToHex_def byte_to_hex)
  qed
qed

lemma hexToUint8Array_loop_hex:
  "length a = length bs \<Longrightarrow> k \<le> length bs \<Longrightarrow>
     hexToUint8Array_loop (uint8ArrayToHex bs) (2 * k) a = take k a @ drop k bs"
proof (induction "length bs - k" arbitrary: k a)
  case 0
  then show ?case
    by (simp add: hexToUint8Array_loop.simps [of _ "2 * k"] length_uint8ArrayToHex)
next
  case (Suc n)
  then have k: "k < length bs" by simp
  let ?a = "typed_array_set a k (bs ! k)"
  have len: "length ?a = length bs" using Suc.prems by (simp add: typed_array_set_def)
  have "hexToUint8Array_loop (uint8ArrayToHex bs) (2 * k) a
          = hexToUint8Array_loop (uint8ArrayToHex bs) (2 * Suc k) ?a"
    using k by (subst hexToUint8Array_loop.simps)
      (simp add: length_uint8ArrayToHex substr_uint8ArrayToHex byte_hex_roundtrip)
  also have "\<dots> = take (Suc k) ?a @ drop (Suc k) bs"
    using Suc.hyps(2) k len by (intro Suc.hyps(1)) simp_all
  also have "take (Suc k) ?a = take k a @ [bs ! k]"
    using k Suc.prems(1) by (simp add: typed_array_set_def take_Suc_conv_app_nth)
  finally show ?case using k by (simp add: Cons_nth_drop_Suc)
qed

lemma hexToUint8Array_uint8ArrayToHex: "hexToUint8Array (uint8ArrayToHex bs) = bs"
  using hexToUint8Array_loop_hex [of "replicate (length bs) 0" bs 0]
  by (simp add: hexToUint8Array_def length_uint8ArrayToHex)

lemma digit_char_lowercase_hex: "d < 16 \<Longrightarrow> digit_char d \<in> set (js ''0123456789abcdef'')"
  by (erule digit_cases) (simp_all add: digit_char_def js_def)

lemma digit_char_plain:
  "d < 16 \<Longrightarrow> 0x20 \<le> digit_char d \<and> digit_char d < 0x80 \<and> digit_char d \<noteq> 0x22 \<and> digit_char d \<noteq> 0x5C"
  by (erule digit_cases) (simp_all add: digit_char_def)

lemma set_uint8ArrayToHex:
  "u \<in> set (uint8ArrayToHex bs) \<Longrightarrow> \<exists>d < 16. u = digit_char d"
proof (induction bs)
  case Nil
  then show ?case by (simp add: uint8ArrayToHex_def)
next
  case (Cons b bs)
  have "unat b < 256" using unsigned_less [of b, where ?'a = nat] by simp
  then have d: "unat b div 16 < 16" "unat b mod 16 < 16" by simp_all
  from Cons.prems have "u = digit_char (unat b div 16) \<or> u = digit_char (unat b mod 16)
      \<or> u \<in> set (uint8ArrayToHex bs)"
    by (auto simp: uint8ArrayToHex_def byte_to_hex)
  with d Cons.IH show ?case by blast
qed

lemma lowercase_hex_uint8ArrayToHex: "lowercase_hex (uint8ArrayToHex bs)"
  unfolding lowercase_hex_def using set_uint8ArrayToHex digit_char_lowercase_hex by blast

lemma plain_uint8ArrayToHex: "plain (uint8ArrayToHex bs)"
  unfolding plain_def
proof
  fix u assume "u \<in> set (uint8ArrayToHex bs)"
  then obtain d where "d < 16" "u = digit_char d" using set_uint8ArrayToHex by blast
  then show "0x20 \<le> u \<and> u < 0x80 \<and> u \<noteq> 0x22 \<and> u \<noteq> 0x5C" using digit_char_plain by simp
qed

lemma is_ascii_uint8ArrayToHex: "is_ascii (uint8ArrayToHex bs)"
  using plain_uint8ArrayToHex [of bs] by (simp add: plain_def is_ascii_def)

section \<open>UTF-8 on ASCII strings\<close>

lemma unat_ascii: "(u :: 16 word) < 0x80 \<Longrightarrow> unat u < 0x80"
  by (simp add: word_less_nat_alt)

lemma ascii_not_surrogate:
  "(u :: 16 word) < 0x80 \<Longrightarrow> \<not> is_high_surrogate u \<and> \<not> is_low_surrogate u"
  by (simp add: is_high_surrogate_def is_low_surrogate_def word_le_nat_alt word_less_nat_alt)

lemma ascii_octet: "(u :: 16 word) < 0x80 \<Longrightarrow> unat (ucast u :: 8 word) = unat u"
  by (simp add: unsigned_ucast_eq take_bit_eq_mod word_less_nat_alt)

lemma code_points_ascii: "is_ascii s \<Longrightarrow> code_points s = map unat s"
proof (induction s rule: code_points.induct)
  case 1
  then show ?case by simp
next
  case (2 u)
  then have "u < 0x80" by (simp add: is_ascii_def)
  then show ?case by (simp add: ascii_not_surrogate)
next
  case (3 u v r)
  then have u: "u < 0x80" and r: "is_ascii (v # r)" by (simp_all add: is_ascii_def)
  with 3 show ?case by (simp add: ascii_not_surrogate)
qed

lemma TextEncoder_encode_ascii:
  "is_ascii s \<Longrightarrow> TextEncoder_encode s = map ucast s"
  unfolding TextEncoder_encode_def
  by (simp add: code_points_ascii) (induction s; simp add: is_ascii_def utf8_bytes_def unat_ascii)

lemma utf8_decoder_ascii:
  "is_ascii s \<Longrightarrow> utf8_decoder 0 0 0x80 0xBF (map ucast s) = map unat s"
proof (induction s)
  case Nil
  then show ?case by simp
next
  case (Cons u s)
  then have u: "u < 0x80" and s: "is_ascii s" by (simp_all add: is_ascii_def)
  from u have "utf8_lead_byte (unat u) = Emit (unat u)"
    by (simp add: utf8_lead_byte_def word_less_nat_alt)
  with u s Cons.IH show ?case by (simp add: ascii_octet)
qed

lemma utf16_units_unat: "concat (map (utf16_units \<circ> unat) (s :: jsstring)) = s"
proof (induction s)
  case Nil
  then show ?case by simp
next
  case (Cons u s)
  have "unat u < 0x10000" using unsigned_less [of u, where ?'a = nat] by simp
  with Cons show ?case by (simp add: utf16_units_def)
qed

lemma TextDecoder_decode_encode_ascii:
  assumes "is_ascii s"
  shows "TextDecoder_decode (TextEncoder_encode s) = s"
proof -
  have "(case map unat s of [] \<Rightarrow> map unat s | c # r \<Rightarrow> if c = 0xFEFF then r else map unat s) = map unat s"
    using assms by (cases s) (auto simp: is_ascii_def dest: unat_ascii)
  then show ?thesis
    using assms
    by (simp add: TextDecoder_decode_def TextEncoder_encode_ascii utf8_decoder_ascii utf16_units_unat)
qed

lemma length_TextEncoder_encode_ascii: "is_ascii s \<Longrightarrow> length (TextEncoder_encode s) = length s"
  by (simp add: TextEncoder_encode_ascii)

section \<open>JSON on the wrapped key\<close>

lemma json_escape_unit_plain:
  "0x20 \<le> u \<Longrightarrow> u < 0x80 \<Longrightarrow> u \<noteq> 0x22 \<Longrightarrow> u \<noteq> 0x5C \<Longrightarrow> json_escape_unit u = [u]"
  using ascii_not_surrogate [of u]
  by (auto simp: json_escape_unit_def word_le_nat_alt word_less_nat_alt)

lemma json_escape_plain: "plain s \<Longrightarrow> json_escape s = s"
proof (induction s rule: json_escape.induct)
  case 1
  then show ?case by simp
next
  case (2 u)
  then show ?case by (simp add: plain_def json_escape_unit_plain)
next
  case (3 u v r)
  then have u: "0x20 \<le> u" "u < 0x80" "u \<noteq> 0x22" "u \<noteq> 0x5C" and r: "plain (v # r)"
    by (simp_all add: plain_def)
  with 3 show ?case by (simp add: json_escape_unit_plain ascii_not_surrogate)
qed

lemma json_string_body_plain: "plain s \<Longrightarrow> json_string_body (s @ 0x22 # r) = Some (s, r)"
proof (induction s)
  case Nil
  then show ?case by simp
next
  case (Cons u s)
  then have "0x20 \<le> u" "u \<noteq> 0x22" "u \<noteq> 0x5C" "plain s" by (simp_all add: plain_def)
  with Cons.IH show ?case by (simp add: word_le_nat_alt word_less_nat_alt)
qed

lemma JSON_parse_stringify_two:
  assumes "plain k1" "plain v1" "plain k2" "plain v2"
  shows "JSON_parse (JSON_stringify [(k1, v1), (k2, v2)]) = Some [(k1, v1), (k2, v2)]"
proof -
  have last: "json_members (0x22 # k2 @ 0x22 # 0x3A # 0x22 # v2 @ [0x22, 0x7D]) = Some [(k2, v2)]"
    using assms by (subst json_members.simps) (simp add: json_string_body_plain)
  have both: "json_members (0x22 # k1 @ 0x22 # 0x3A # 0x22 # v1 @ 0x22 # 0x2C # 0x22 # k2 @ 0x22 # 0x3A # 0x22 # v2 @ [0x22, 0x7D])
        = Some [(k1, v1), (k2, v2)]"
    using assms by (subst json_members.simps) (simp add: json_string_body_plain last)
  have ne: "0x22 # k1 @ 0x22 # 0x3A # 0x22 # v1 @ 0x22 # 0x2C # 0x22 # k2 @ 0x22 # 0x3A # 0x22 # v2 @ [0x22, 0x7D] \<noteq> [0x7D]"
    by simp
  show ?thesis
    using assms both ne
    by (simp add: JSON_parse_def JSON_stringify_def QuoteJSONString_def json_escape_plain)
qed

lemma plain_member_names: "plain (js ''encrypted'')" "plain (js ''iv'')"
  by (simp_all add: plain_def js_def)

lemma member_names_distinct: "js ''encrypted'' \<noteq> js ''iv''"
  by (simp add: js_def)

lemma wrapped_iv_member:
  "\<exists>obj. JSON_parse (JSON_stringify [(js ''encrypted'', uint8ArrayToHex a), (js ''iv'', uint8ArrayToHex b)]) = Some obj \<and>
         get_member obj (js ''encrypted'') = Some (uint8ArrayToHex a) \<and>
         get_member obj (js ''iv'') = Some (uint8ArrayToHex b)"
  using member_names_distinct
  by (simp add: JSON_parse_stringify_two plain_member_names plain_uint8ArrayToHex get_member_def)

section \<open>The key manager\<close>

lemma getRandomValues_available:
  "n \<le> length g \<Longrightarrow> getRandomValues n g = Inr (take n g, drop n g)"
  by (simp add: getRandomValues_def)

lemma getRandomValues_Inl:
  "getRandomValues n g = Inl e \<Longrightarrow> length g < n \<and> e = RandomSourceUnavailable"
  by (auto simp: getRandomValues_def split: if_splits)

lemma importKey_raw_32: "length keyData = 32 \<Longrightarrow> importKey_raw keyData = Inr keyData"
  by (simp add: importKey_raw_def)

lemma importKey_raw_cases:
  "importKey_raw keyData = (if length keyData \<in> {16, 24, 32} then Inr keyData else Inl DataError)"
  by (simp add: importKey_raw_def)

lemma length_normalized: "length (normalized masterKey) = 32"
  by (simp add: normalized_def padEnd_def)

lemma is_ascii_normalized: "is_ascii masterKey \<Longrightarrow> is_ascii (normalized masterKey)"
  by (auto simp: normalized_def padEnd_def is_ascii_def dest: in_set_takeD)

lemma ascii_secret_well_formed: "is_ascii masterKey \<Longrightarrow> well_formed_master_secret masterKey"
  by (simp add: well_formed_master_secret_def length_TextEncoder_encode_ascii
      is_ascii_normalized length_normalized)

lemma default_key_ascii: "is_ascii (KMSService_new None)"
  by (simp add: KMSService_new_def is_ascii_def js_def)

lemma e_acute_malformed: "\<not> well_formed_master_secret (KMSService_new (Some [0xE9]))"
  by code_simp

lemma length_test_tag: "length (test_tag key nonce) = 16"
  by (simp add: test_tag_def min_def)

lemma test_subtle_tag_128: "AES_GCM_tag_128 test_subtle"
  by (simp add: AES_GCM_tag_128_def test_subtle_def length_test_tag)

lemma test_subtle_inverse: "AES_GCM_inverse test_subtle"
  by (simp add: AES_GCM_inverse_def test_subtle_def length_test_tag comp_def)

lemma length_test_rng: "length test_rng = 64"
  by (simp add: test_rng_def)

text \<open>
  A secret is well-formed exactly when its first 32 code units are ASCII: the UTF-8
  encoding of a string is at least as long as the string, and longer by at least one octet
  for every code unit outside ASCII.
\<close>

lemma length_utf8_bytes:
  "length (utf8_bytes c) = (if c < 0x80 then 1 else if c < 0x800 then 2 else if c < 0x10000 then 3 else 4)"
  by (simp add: utf8_bytes_def)

lemma surrogate_not_ascii:
  "is_high_surrogate u \<or> is_low_surrogate u \<Longrightarrow> \<not> u < 0x80"
  by (auto simp: is_high_surrogate_def is_low_surrogate_def word_le_nat_alt word_less_nat_alt)

lemma length_TextEncoder_encode_lower:
  "length s + length (filter (\<lambda>u. \<not> u < 0x80) s) \<le> length (TextEncoder_encode s)"
proof (induction s rule: code_points.induct)
  case 1
  show ?case by (simp add: TextEncoder_encode_def)
next
  case (2 u)
  show ?case
    using surrogate_not_ascii [of u]
    by (auto simp: TextEncoder_encode_def length_utf8_bytes word_less_nat_alt)
next
  case (3 u v r)
  show ?case
  proof (cases "is_high_surrogate u \<and> is_low_surrogate v")
    case True
    then have "\<not> u < 0x80" "\<not> v < 0x80" using surrogate_not_ascii by blast+
    with True 3(1) show ?thesis
      by (simp add: TextEncoder_encode_def length_utf8_bytes)
  next
    case False
    with 3(2) have "length (v # r) + length (filter (\<lambda>u. \<not> u < 0x80) (v # r)) \<le> length (TextEncoder_encode (v # r))"
      by simp
    moreover have "length (TextEncoder_encode (u # v # r)) =
        length (utf8_bytes (if is_high_surrogate u \<or> is_low_surrogate u then 0xFFFD else unat u)) +
        length (TextEncoder_encode (v # r))"
    proof -
      from False have "code_points (u # v # r) =
          (if is_high_surrogate u \<or> is_low_surrogate u then 0xFFFD else unat u) # code_points (v # r)"
        by (simp only: code_points.simps if_False)
      then show ?thesis by (simp only: TextEncoder_encode_def list.map concat.simps length_append)
    qed
    moreover have "(if u < 0x80 then 1 else 2) \<le>
        length (utf8_bytes (if is_high_surrogate u \<or> is_low_surrogate u then 0xFFFD else unat u))"
      using surrogate_not_ascii [of u] by (auto simp: length_utf8_bytes word_less_nat_alt)
    ultimately show ?thesis by (cases "u < 0x80") simp_all
  qed
qed

lemma encode_length_ascii:
  assumes "length (TextEncoder_encode s) \<le> length s"
  shows "is_ascii s"
proof -
  from assms length_TextEncoder_encode_lower [of s]
  have "length (filter (\<lambda>u. \<not> u < 0x80) s) = 0" by linarith
  then have "filter (\<lambda>u. \<not> u < 0x80) s = []" by (simp only: length_0_conv)
  then show ?thesis by (auto simp: is_ascii_def filter_empty_conv)
qed

lemma well_formed_master_secret_iff:
  "well_formed_master_secret masterKey \<longleftrightarrow> is_ascii (take 32 masterKey)"
proof
  assume "well_formed_master_secret masterKey"
  then have "length (TextEncoder_encode (normalized masterKey)) \<le> 32"
    by (auto simp: well_formed_master_secret_def)
  then have "is_ascii (normalized masterKey)"
    by (intro encode_length_ascii) (simp add: length_normalized)
  then show "is_ascii (take 32 masterKey)"
    by (simp add: normalized_def padEnd_def is_ascii_def)
next
  assume "is_ascii (take 32 masterKey)"
  then have "is_ascii (normalized masterKey)"
    by (auto simp: normalized_def padEnd_def is_ascii_def)
  then show "well_formed_master_secret masterKey"
    by (simp add: well_formed_master_secret_def length_TextEncoder_encode_ascii length_normalized)
qed

lemma generateDEK_Inr:
  "32 \<le> length g \<Longrightarrow> generateDEK g = Inr (uint8ArrayToHex (take 32 g), drop 32 g)"
  by (simp add: generateDEK_def getRandomValues_available)

lemma generateDEK_Inl:
  assumes "generateDEK g = Inl e"
  shows "length g < 32 \<and> e = RandomSourceUnavailable"
proof -
  from assms have "getRandomValues 32 g = Inl e"
    by (simp add: generateDEK_def split: sum.splits prod.splits)
  then show ?thesis by (rule getRandomValues_Inl)
qed

lemma encryptDEK_malformed:
  "\<not> well_formed_master_secret masterKey \<Longrightarrow> encryptDEK sc masterKey k g = Inl DataError"
  by (simp add: encryptDEK_def importKey_raw_cases well_formed_master_secret_def normalized_def)

lemma encryptDEK_well_formed:
  assumes "well_formed_master_secret masterKey" and "12 \<le> length g"
  shows "encryptDEK sc masterKey k g =
     Inr (JSON_stringify
            [(js ''encrypted'',
              uint8ArrayToHex (AES_GCM_encrypt sc (TextEncoder_encode (normalized masterKey)) (take 12 g)
                                 (TextEncoder_encode k))),
             (js ''iv'', uint8ArrayToHex (take 12 g))],
          drop 12 g)"
  using assms
  by (simp add: encryptDEK_def importKey_raw_cases well_formed_master_secret_def normalized_def
      getRandomValues_available Let_def)

text \<open>
  C8.  With the random source available, \<open>generateDEK\<close> returns the next 32 octets of
  the source, 256 bits, as 64 hexadecimal characters in lower case that decode to those
  octets, and leaves the source 32 octets further; it fails only when the source cannot
  deliver them, and then with the source's own error.
\<close>

theorem generateDEK_256_bit_hex:
  "(32 \<le> length g \<longrightarrow>
      generateDEK g = Inr (uint8ArrayToHex (take 32 g), drop 32 g) \<and>
      length (take 32 g) = 32 \<and>
      length (uint8ArrayToHex (take 32 g)) = 64 \<and>
      lowercase_hex (uint8ArrayToHex (take 32 g)) \<and>
      hexToUint8Array (uint8ArrayToHex (take 32 g)) = take 32 g) \<and>
   (\<forall>e. generateDEK g = Inl e \<longrightarrow> length g < 32 \<and> e = RandomSourceUnavailable)"
proof (intro conjI impI allI)
  assume "32 \<le> length g"
  then show "generateDEK g = Inr (uint8ArrayToHex (take 32 g), drop 32 g)"
    by (rule generateDEK_Inr)
  from \<open>32 \<le> length g\<close> show "length (take 32 g) = 32" "length (uint8ArrayToHex (take 32 g)) = 64"
    by (simp_all add: length_uint8ArrayToHex)
  show "lowercase_hex (uint8ArrayToHex (take 32 g))"
    by (rule lowercase_hex_uint8ArrayToHex)
  show "hexToUint8Array (uint8ArrayToHex (take 32 g)) = take 32 g"
    by (rule hexToUint8Array_uint8ArrayToHex)
next
  fix e assume "generateDEK g = Inl e"
  then show "length g < 32" "e = RandomSourceUnavailable"
    using generateDEK_Inl by blast+
qed

theorem generateDEK_256_bit_hex_witness:
  "32 \<le> length test_rng \<and>
   generateDEK test_rng =
     Inr (js ''030a11181f262d343b424950575e656c737a81888f969da4abb2b9c0c7ced5dc'', drop 32 test_rng) \<and>
   length (js ''030a11181f262d343b424950575e656c737a81888f969da4abb2b9c0c7ced5dc'') = 64 \<and>
   generateDEK (take 31 test_rng) = Inl RandomSourceUnavailable"
proof -
  have h: "uint8ArrayToHex (take 32 test_rng) =
      js ''030a11181f262d343b424950575e656c737a81888f969da4abb2b9c0c7ced5dc''"
    by code_simp
  have u: "generateDEK (take 31 test_rng) = Inl RandomSourceUnavailable"
    by (simp add: generateDEK_def getRandomValues_def length_test_rng)
  from generateDEK_256_bit_hex [of test_rng] h u show ?thesis
    by (simp add: length_test_rng)
qed

text \<open>
  C9.  For a 256-bit key in the form \<open>generateDEK\<close> returns it and a random source that
  is available, \<open>encryptFile\<close> draws the next 12 octets of the source as the nonce (so
  the next call draws later ones), and returns three fields: the AES-GCM output without
  its last 16 octets as the ciphertext, as long as the plaintext; the nonce as 24
  hexadecimal characters in lower case; those last 16 octets, the tag, as 32 such
  characters.
\<close>

theorem encryptFile_three_fields:
  assumes "AES_GCM_tag_128 sc" and "length key = 32" and "12 \<le> length g"
  shows "\<exists>ciphertext tag.
           encryptFile sc data (uint8ArrayToHex key) g =
             Inr (\<lparr>encryptedData = ciphertext, iv = uint8ArrayToHex (take 12 g),
                   authTag = uint8ArrayToHex tag\<rparr>, drop 12 g) \<and>
           ciphertext @ tag = AES_GCM_encrypt sc key (take 12 g) data \<and>
           length (take 12 g) = 12 \<and> length tag = 16 \<and> length ciphertext = length data \<and>
           lowercase_hex (uint8ArrayToHex (take 12 g)) \<and> length (uint8ArrayToHex (take 12 g)) = 24 \<and>
           lowercase_hex (uint8ArrayToHex tag) \<and> length (uint8ArrayToHex tag) = 32"
proof -
  let ?enc = "AES_GCM_encrypt sc key (take 12 g) data"
  from assms(1) have len: "length ?enc = length data + 16"
    by (simp add: AES_GCM_tag_128_def)
  have "encryptFile sc data (uint8ArrayToHex key) g =
          Inr (\<lparr>encryptedData = take (length ?enc - 16) ?enc, iv = uint8ArrayToHex (take 12 g),
                authTag = uint8ArrayToHex (drop (length ?enc - 16) ?enc)\<rparr>, drop 12 g)"
    using assms(2,3)
    by (simp add: encryptFile_def hexToUint8Array_uint8ArrayToHex importKey_raw_32
        getRandomValues_available Let_def)
  with len assms(3) show ?thesis
    by (intro exI [of _ "take (length ?enc - 16) ?enc"] exI [of _ "drop (length ?enc - 16) ?enc"])
      (simp add: length_uint8ArrayToHex lowercase_hex_uint8ArrayToHex)
qed

theorem encryptFile_three_fields_witness:
  "AES_GCM_tag_128 test_subtle \<and> length (replicate 32 (0x5A :: 8 word)) = 32 \<and> 12 \<le> length test_rng \<and>
   encryptFile test_subtle [1, 2, 3] (uint8ArrayToHex (replicate 32 0x5A)) test_rng =
     Inr (\<lparr>encryptedData = [2, 3, 4],
           iv = js ''030a11181f262d343b424950'',
           authTag = js ''030a11181f262d343b4249505a5a5a5a''\<rparr>,
          drop 12 test_rng)"
proof -
  have run: "encryptFile test_subtle [1, 2, 3] (uint8ArrayToHex (replicate 32 0x5A)) test_rng =
     Inr (\<lparr>encryptedData = [2, 3, 4],
           iv = js ''030a11181f262d343b424950'',
           authTag = js ''030a11181f262d343b4249505a5a5a5a''\<rparr>,
          drop 12 test_rng)"
    by code_simp
  from encryptFile_three_fields [OF test_subtle_tag_128, of "replicate 32 0x5A" test_rng "[1, 2, 3]"]
    test_subtle_tag_128 run
  show ?thesis by (simp add: length_test_rng)
qed

text \<open>
  C6.  \<open>encryptDEK\<close> fails, with the key import's \<open>DataError\<close>, whenever the master
  secret is malformed: its normalised form does not encode to 16, 24 or 32 octets.  For a
  well-formed secret and an available random source it returns the JSON text of an object
  with the members \<open>encrypted\<close> and \<open>iv\<close>; parsing that text gives back the nonce the
  encryption used and the encrypted key, so the wrapped key carries all that unwrapping
  needs besides the master secret.
\<close>

theorem encryptDEK_master_secret:
  "(\<not> well_formed_master_secret masterKey \<longrightarrow> encryptDEK sc masterKey k g = Inl DataError) \<and>
   (well_formed_master_secret masterKey \<and> 12 \<le> length g \<longrightarrow>
      (\<exists>encrypted wrapped obj.
          encrypted = AES_GCM_encrypt sc (TextEncoder_encode (normalized masterKey)) (take 12 g)
                        (TextEncoder_encode k) \<and>
          wrapped = JSON_stringify [(js ''encrypted'', uint8ArrayToHex encrypted),
                                    (js ''iv'', uint8ArrayToHex (take 12 g))] \<and>
          encryptDEK sc masterKey k g = Inr (wrapped, drop 12 g) \<and>
          JSON_parse wrapped = Some obj \<and>
          map_option hexToUint8Array (get_member obj (js ''iv'')) = Some (take 12 g) \<and>
          map_option hexToUint8Array (get_member obj (js ''encrypted'')) = Some encrypted))"
proof (intro conjI impI)
  assume "\<not> well_formed_master_secret masterKey"
  then show "encryptDEK sc masterKey k g = Inl DataError"
    by (rule encryptDEK_malformed)
next
  assume a: "well_formed_master_secret masterKey \<and> 12 \<le> length g"
  let ?enc = "AES_GCM_encrypt sc (TextEncoder_encode (normalized masterKey)) (take 12 g) (TextEncoder_encode k)"
  let ?w = "JSON_stringify [(js ''encrypted'', uint8ArrayToHex ?enc), (js ''iv'', uint8ArrayToHex (take 12 g))]"
  from a have run: "encryptDEK sc masterKey k g = Inr (?w, drop 12 g)"
    by (simp add: encryptDEK_well_formed)
  from wrapped_iv_member [of ?enc "take 12 g"] obtain obj where
    "JSON_parse ?w = Some obj" "get_member obj (js ''encrypted'') = Some (uint8ArrayToHex ?enc)"
    "get_member obj (js ''iv'') = Some (uint8ArrayToHex (take 12 g))"
    by blast
  with run show "\<exists>encrypted wrapped obj.
          encrypted = AES_GCM_encrypt sc (TextEncoder_encode (normalized masterKey)) (take 12 g)
                        (TextEncoder_encode k) \<and>
          wrapped = JSON_stringify [(js ''encrypted'', uint8ArrayToHex encrypted),
                                    (js ''iv'', uint8ArrayToHex (take 12 g))] \<and>
          encryptDEK sc masterKey k g = Inr (wrapped, drop 12 g) \<and>
          JSON_parse wrapped = Some obj \<and>
          map_option hexToUint8Array (get_member obj (js ''iv'')) = Some (take 12 g) \<and>
          map_option hexToUint8Array (get_member obj (js ''encrypted'')) = Some encrypted"
    by (simp add: hexToUint8Array_uint8ArrayToHex)
qed

theorem encryptDEK_master_secret_witness:
  "\<not> well_formed_master_secret (KMSService_new (Some [0xE9])) \<and>
   encryptDEK test_subtle (KMSService_new (Some [0xE9])) (js ''00'') test_rng = Inl DataError \<and>
   well_formed_master_secret (KMSService_new None) \<and> 12 \<le> length test_rng \<and>
   (\<exists>wrapped. encryptDEK test_subtle (KMSService_new None) (js ''00'') test_rng = Inr (wrapped, drop 12 test_rng))"
proof -
  have wf: "well_formed_master_secret (KMSService_new None)"
    by (rule ascii_secret_well_formed [OF default_key_ascii])
  from encryptDEK_master_secret [of "KMSService_new (Some [0xE9])" test_subtle "js ''00''" test_rng]
    encryptDEK_master_secret [of "KMSService_new None" test_subtle "js ''00''" test_rng]
    e_acute_malformed wf
  show ?thesis by (auto simp: length_test_rng)
qed

text \<open>
  C7.  \<open>decryptDEK\<close> inverts \<open>encryptDEK\<close>: whenever a key returned by \<open>generateDEK\<close>
  has been wrapped under a master secret, unwrapping the result under the same secret
  returns exactly that key, provided AES-GCM decryption inverts AES-GCM encryption.
\<close>

theorem decryptDEK_inverts_encryptDEK:
  assumes "AES_GCM_inverse sc"
    and "generateDEK g0 = Inr (k, g)"
    and "encryptDEK sc masterKey k g = Inr (wrapped, g')"
  shows "decryptDEK sc masterKey wrapped = Inr k"
proof -
  from assms(2) obtain key where k: "k = uint8ArrayToHex key"
    by (auto simp: generateDEK_def split: sum.splits)
  let ?raw = "TextEncoder_encode (take 32 (padEnd 32 0x30 masterKey))"
  from assms(3) have imp: "importKey_raw ?raw = Inr ?raw"
    by (auto simp: encryptDEK_def importKey_raw_def Let_def split: sum.splits if_splits)
  from assms(3) imp obtain nonce where
    w: "wrapped = JSON_stringify [(js ''encrypted'', uint8ArrayToHex (AES_GCM_encrypt sc ?raw nonce (TextEncoder_encode k))),
                                   (js ''iv'', uint8ArrayToHex nonce)]"
    by (auto simp: encryptDEK_def Let_def split: sum.splits)
  from wrapped_iv_member [of "AES_GCM_encrypt sc ?raw nonce (TextEncoder_encode k)" nonce] w
  obtain obj where obj: "JSON_parse wrapped = Some obj"
    "get_member obj (js ''encrypted'') = Some (uint8ArrayToHex (AES_GCM_encrypt sc ?raw nonce (TextEncoder_encode k)))"
    "get_member obj (js ''iv'') = Some (uint8ArrayToHex nonce)"
    by blast
  from assms(1) have "AES_GCM_decrypt sc ?raw nonce (AES_GCM_encrypt sc ?raw nonce (TextEncoder_encode k))
      = Some (TextEncoder_encode k)"
    by (simp add: AES_GCM_inverse_def)
  with obj imp show ?thesis
    by (simp add: decryptDEK_def hexToUint8Array_uint8ArrayToHex k
        TextDecoder_decode_encode_ascii is_ascii_uint8ArrayToHex)
qed

theorem decryptDEK_inverts_encryptDEK_witness:
  "AES_GCM_inverse test_subtle \<and>
   generateDEK test_rng = Inr (uint8ArrayToHex (take 32 test_rng), drop 32 test_rng) \<and>
   encryptDEK test_subtle (KMSService_new None) (uint8ArrayToHex (take 32 test_rng)) (drop 32 test_rng) =
     Inr (JSON_stringify
            [(js ''encrypted'',
              uint8ArrayToHex
                (AES_GCM_encrypt test_subtle (TextEncoder_encode (normalized (KMSService_new None)))
                   (take 12 (drop 32 test_rng)) (TextEncoder_encode (uint8ArrayToHex (take 32 test_rng))))),
             (js ''iv'', uint8ArrayToHex (take 12 (drop 32 test_rng)))],
          drop 12 (drop 32 test_rng)) \<and>
   decryptDEK test_subtle (KMSService_new None)
     (JSON_stringify
            [(js ''encrypted'',
              uint8ArrayToHex
                (AES_GCM_encrypt test_subtle (TextEncoder_encode (normalized (KMSService_new None)))
                   (take 12 (drop 32 test_rng)) (TextEncoder_encode (uint8ArrayToHex (take 32 test_rng))))),
             (js ''iv'', uint8ArrayToHex (take 12 (drop 32 test_rng)))]) =
     Inr (uint8ArrayToHex (take 32 test_rng))"
proof -
  have gen: "generateDEK test_rng = Inr (uint8ArrayToHex (take 32 test_rng), drop 32 test_rng)"
    by (rule generateDEK_Inr) (simp add: length_test_rng)
  have wf: "well_formed_master_secret (KMSService_new None)"
    by (rule ascii_secret_well_formed [OF default_key_ascii])
  have enc: "encryptDEK test_subtle (KMSService_new None) (uint8ArrayToHex (take 32 test_rng)) (drop 32 test_rng) =
     Inr (JSON_stringify
            [(js ''encrypted'',
              uint8ArrayToHex
                (AES_GCM_encrypt test_subtle (TextEncoder_encode (normalized (KMSService_new None)))
                   (take 12 (drop 32 test_rng)) (TextEncoder_encode (uint8ArrayToHex (take 32 test_rng))))),
             (js ''iv'', uint8ArrayToHex (take 12 (drop 32 test_rng)))],
          drop 12 (drop 32 test_rng))"
    by (rule encryptDEK_well_formed [OF wf]) (simp add: length_test_rng)
  from decryptDEK_inverts_encryptDEK [OF test_subtle_inverse gen enc] test_subtle_inverse gen enc
  show ?thesis by blast
qed

section \<open>Provider selection\<close>

text \<open>
  C10.  A provider name that, lower-cased, is neither \<open>openai\<close> nor \<open>gemini\<close> selects
  the OpenAI provider.  The factory is a total function into the two providers: no name,
  the empty one included, makes it raise.
\<close>

theorem create_unrecognized_falls_back_to_openai:
  "toLowerCase provider \<noteq> js ''openai'' \<Longrightarrow> toLowerCase provider \<noteq> js ''gemini'' \<Longrightarrow>
     AIProviderFactory_create toLowerCase provider = OpenAIProvider"
  by (simp add: AIProviderFactory_create_def)

theorem create_unrecognized_falls_back_to_openai_witness:
  "toLowerCase_ascii (js ''Claude'') \<noteq> js ''openai'' \<and>
   toLowerCase_ascii (js ''Claude'') \<noteq> js ''gemini'' \<and>
   AIProviderFactory_create toLowerCase_ascii (js ''Claude'') = OpenAIProvider \<and>
   toLowerCase_ascii [] \<noteq> js ''openai'' \<and>
   toLowerCase_ascii [] \<noteq> js ''gemini'' \<and>
   AIProviderFactory_create toLowerCase_ascii [] = OpenAIProvider"
proof -
  have a: "toLowerCase_ascii (js ''Claude'') \<noteq> js ''openai''"
    by (simp add: toLowerCase_ascii_def js_def)
  have b: "toLowerCase_ascii (js ''Claude'') \<noteq> js ''gemini''"
    by (simp add: toLowerCase_ascii_def js_def)
  have c: "toLowerCase_ascii [] \<noteq> js ''openai''"
    by (simp add: toLowerCase_ascii_def js_def)
  have d: "toLowerCase_ascii [] \<noteq> js ''gemini''"
    by (simp add: toLowerCase_ascii_def js_def)
  show ?thesis
    using a b c d
      create_unrecognized_falls_back_to_openai [of toLowerCase_ascii "js ''Claude''"]
      create_unrecognized_falls_back_to_openai [of toLowerCase_ascii "[]"]
    by simp
qed

section \<open>The claim step\<close>

lemma status_literals:
  "js ''processing'' \<noteq> js ''pending''" "js ''uploaded'' \<noteq> js ''encrypted''"
  by (simp_all add: js_def)

lemma queued_literal: "js ''queued'' \<noteq> js ''pending''"
  by (simp add: js_def)

lemma single_row_Nil: "single_row [] = Inl (js ''JSON object requested, multiple (or no) rows returned'')"
  by (simp add: single_row_def)

lemma serve_from_Returned: "serve_from sc env (Returned r m) w = (r, m, w)"
  by (simp add: serve_from.simps [of sc env "Returned r m"])

text \<open>
  Both updates of \<^verbatim>\<open>processing_queue\<close> name a column the table does not have, so
  both are refused: the claim step and the last step leave every table as it is.
\<close>

lemma started_at_no_column: "js ''started_at'' \<notin> set processing_queue_columns"
  by (simp add: processing_queue_columns_def js_def)

lemma completed_at_no_column: "js ''completed_at'' \<notin> set processing_queue_columns"
  by (simp add: processing_queue_columns_def js_def)

lemma update_queue_refused:
  "c \<in> set columns \<Longrightarrow> c \<notin> set processing_queue_columns \<Longrightarrow>
     update_queue fault columns ident change w = w"
  by (auto simp: update_queue_def split: option.splits)

lemma step_Claiming_refused: "step sc env (Claiming l) w = (Loading l, w)"
  using update_queue_refused [OF _ started_at_no_column, of "[js ''status'', js ''started_at'']"]
  by simp

lemma step_Completing_refused:
  "step sc env (Completing l) w =
     (Returned (Success (l_encryptedPath l) (l_keyId l))
        \<lparr>mem_fileBytes = Some (map (\<lambda>b. 0) (l_fileBytes l)), mem_dek = Some (l_dek l)\<rparr>, w)"
  using update_queue_refused [OF _ completed_at_no_column, of "[js ''status'', js ''completed_at'']"]
  by simp

lemma serve_from_Completing:
  "serve_from sc env (Completing l) w =
     (Success (l_encryptedPath l) (l_keyId l),
      \<lparr>mem_fileBytes = Some (map (\<lambda>b. 0) (l_fileBytes l)), mem_dek = Some (l_dek l)\<rparr>, w)"
  by (simp only: serve_from.simps [of sc env "Completing l"] outcome.simps option.case
      step_Completing_refused prod.case serve_from_Returned)

lemma serve_from_FlippingDocument:
  "serve_from sc env (FlippingDocument l) w =
     serve_from sc env (Completing l)
       (update_documents (fail_update_document env) (l_documentId l)
          (\<lambda>d. d\<lparr>d_status := js ''encrypted'', d_processed_at := Some (now_processed env)\<rparr>) w)"
  by (simp add: serve_from.simps [of sc env "FlippingDocument l"])


lemma no_pending_task_not_found:
  assumes "\<forall>r \<in> set (processing_queue w). q_status r \<noteq> js ''pending''"
    and "req_method req \<noteq> js ''OPTIONS''" and "req_body req = Body (Some d)" and "d \<noteq> []"
  shows "\<exists>message. serve sc env req w =
           (Failure (Error (js ''Queue item not found: '' @ message)),
            \<lparr>mem_fileBytes = None, mem_dek = None\<rparr>, w)"
proof -
  from assms(1) have "filter (\<lambda>r. q_document_id r = Some d \<and> q_status r = js ''pending'') (processing_queue w) = []"
    by (simp add: filter_empty_conv)
  then have "\<exists>message. select_queue_item (fail_select_queue env) d w = Inl message"
    by (cases "fail_select_queue env") (simp_all add: select_queue_item_def single_row_Nil)
  then obtain message where "select_queue_item (fail_select_queue env) d w = Inl message" ..
  with assms(2-4) have "step sc env (Received req) w =
      (Returned (Failure (Error (js ''Queue item not found: '' @ message))) \<lparr>mem_fileBytes = None, mem_dek = None\<rparr>, w)"
    by (simp add: caught_def)
  then have "serve sc env req w =
           (Failure (Error (js ''Queue item not found: '' @ message)),
            \<lparr>mem_fileBytes = None, mem_dek = None\<rparr>, w)"
    by (simp add: serve_def serve_from.simps [of sc env "Received req"] serve_from_Returned)
  then show ?thesis ..
qed

text \<open>
  C2.  \<open>queued_world\<close> holds one task for document \<open>d1\<close>, in the status
  \<open>enqueue_document_processing\<close> creates it with, \<^verbatim>\<open>'queued'\<close>.  The handler selects on
  the status \<^verbatim>\<open>'pending'\<close>, finds no row and answers with the error
  \<^verbatim>\<open>Queue item not found\<close>; the task stays queued and nothing else changes.
\<close>

theorem queued_task_is_not_found:
  "map q_status (processing_queue queued_world) = [js ''queued''] \<and>
   serve test_subtle quiet (post (js ''d1'')) queued_world =
     (Failure (Error (js ''Queue item not found: JSON object requested, multiple (or no) rows returned'')),
      \<lparr>mem_fileBytes = None, mem_dek = None\<rparr>,
      queued_world)"
  by code_simp

section \<open>What each step does to the tables\<close>

lemma metadata_before_status_mono:
  assumes "metadata_before_status w" and "documents w' = documents w"
    and "set (document_encryption w) \<subseteq> set (document_encryption w')"
  shows "metadata_before_status w'"
  unfolding metadata_before_status_def
proof (intro ballI impI)
  fix d assume "d \<in> set (documents w')" "d_status d = js ''encrypted''"
  with assms(1,2) obtain m where "m \<in> set (document_encryption w)" "m_document_id m = d_id d"
    unfolding metadata_before_status_def by auto
  with assms(3) show "\<exists>m \<in> set (document_encryption w'). m_document_id m = d_id d" by blast
qed

lemma flip_ready_mono:
  "flip_ready i w \<Longrightarrow> set (document_encryption w) \<subseteq> set (document_encryption w') \<Longrightarrow> flip_ready i w'"
  by (cases i) auto

lemma update_queue_tables [simp]:
  "documents (update_queue fault columns ident change w) = documents w"
  "document_encryption (update_queue fault columns ident change w) = document_encryption w"
  by (simp_all add: update_queue_def split: option.splits)

lemma update_documents_metadata [simp]:
  "document_encryption (update_documents fault ident change w) = document_encryption w"
  by (simp add: update_documents_def split: option.splits)

lemma flip_keeps_invariant:
  assumes "metadata_before_status w"
    and "\<exists>m \<in> set (document_encryption w). m_document_id m = ident"
  shows "metadata_before_status
           (update_documents fault ident (\<lambda>d. d\<lparr>d_status := js ''encrypted'', d_processed_at := t\<rparr>) w)"
proof (cases fault)
  case (Some message)
  with assms(1) show ?thesis by (simp add: update_documents_def)
next
  case None
  show ?thesis
    unfolding metadata_before_status_def
  proof (intro ballI impI)
    fix d
    assume d: "d \<in> set (documents (update_documents fault ident
        (\<lambda>d. d\<lparr>d_status := js ''encrypted'', d_processed_at := t\<rparr>) w))"
      and e: "d_status d = js ''encrypted''"
    from d None obtain d0 where d0: "d0 \<in> set (documents w)"
      and dd: "d = (if d_id d0 = ident then d0\<lparr>d_status := js ''encrypted'', d_processed_at := t\<rparr> else d0)"
      by (auto simp: update_documents_def)
    have "\<exists>m \<in> set (document_encryption w). m_document_id m = d_id d"
    proof (cases "d_id d0 = ident")
      case True
      with dd assms(2) show ?thesis by simp
    next
      case False
      with dd e d0 assms(1) show ?thesis by (simp add: metadata_before_status_def)
    qed
    then show "\<exists>m \<in> set (document_encryption (update_documents fault ident
        (\<lambda>d. d\<lparr>d_status := js ''encrypted'', d_processed_at := t\<rparr>) w)). m_document_id m = d_id d"
      by simp
  qed
qed

lemma storage_upload_tables:
  "storage_upload fault path content w = Inr w' \<Longrightarrow>
     documents w' = documents w \<and> document_encryption w' = document_encryption w"
  by (auto simp: storage_upload_def split: option.splits)

lemma insert_encryption_key_tables:
  "insert_encryption_key fault row w = Inr (r, w') \<Longrightarrow>
     documents w' = documents w \<and> document_encryption w' = document_encryption w"
  by (auto simp: insert_encryption_key_def split: option.splits)

lemma insert_document_encryption_tables:
  "insert_document_encryption fault row w = Inr w' \<Longrightarrow>
     documents w' = documents w \<and> document_encryption w' = document_encryption w @ [row]"
  by (auto simp: insert_document_encryption_def split: option.splits)

lemma step_Received:
  "step sc env (Received req) w = (i', w') \<Longrightarrow> quiet_step (Received req) w i' w'"
  by (auto simp: quiet_step_def caught_def Let_def
      split: if_splits request_body.splits option.splits sum.splits)

lemma step_Claiming:
  "step sc env (Claiming l) w = (i', w') \<Longrightarrow> quiet_step (Claiming l) w i' w'"
  by (auto simp: quiet_step_def)

lemma step_Loading:
  "step sc env (Loading l) w = (i', w') \<Longrightarrow> quiet_step (Loading l) w i' w'"
  by (auto simp: quiet_step_def caught_def split: sum.splits)

lemma step_Downloading:
  "step sc env (Downloading l) w = (i', w') \<Longrightarrow> quiet_step (Downloading l) w i' w'"
  by (auto simp: quiet_step_def caught_def split: sum.splits)

lemma step_Completing:
  "step sc env (Completing l) w = (i', w') \<Longrightarrow> quiet_step (Completing l) w i' w'"
  by (auto simp: quiet_step_def)

lemma step_Returned:
  "step sc env (Returned r m) w = (i', w') \<Longrightarrow> quiet_step (Returned r m) w i' w'"
  by (auto simp: quiet_step_def)

lemma step_StoringKey:
  assumes "step sc env (StoringKey l) w = (i', w')"
  shows "quiet_step (StoringKey l) w i' w'"
proof (cases "generateDEK (rng w)")
  case (Inl e)
  with assms show ?thesis by (auto simp: quiet_step_def caught_def)
next
  case (Inr p)
  obtain k g1 where p: "p = (k, g1)" by (cases p)
  show ?thesis
  proof (cases "encryptDEK sc (l_masterKey l) k g1")
    case (Inl e)
    with assms Inr p show ?thesis by (auto simp: quiet_step_def caught_def)
  next
    case wrapped: (Inr q)
    obtain e g2 where q: "q = (e, g2)" by (cases q)
    let ?row = "\<lparr>k_id = new_key_uuid env,
        k_key_id = js ''key_'' @ l_documentId l @ js ''_'' @ toString10 (now_keyId env),
        k_encrypted_dek = e, k_created_by = None\<rparr>"
    show ?thesis
    proof (cases "insert_encryption_key (fail_insert_key env) ?row (w\<lparr>rng := g2\<rparr>)")
      case (Inl message)
      with assms Inr p wrapped q show ?thesis by (auto simp: quiet_step_def caught_def Let_def)
    next
      case stored: (Inr s)
      obtain r w'' where s: "s = (r, w'')" by (cases s)
      from insert_encryption_key_tables [OF stored [unfolded s]]
      have "documents w'' = documents w" "document_encryption w'' = document_encryption w" by simp_all
      with assms Inr p wrapped q stored s show ?thesis
        by (auto simp: quiet_step_def Let_def)
    qed
  qed
qed

lemma step_Uploading:
  assumes "step sc env (Uploading l) w = (i', w')"
  shows "quiet_step (Uploading l) w i' w'"
proof (cases "encryptFile sc (l_fileBytes l) (l_dek l) (rng w)")
  case (Inl e)
  with assms show ?thesis by (auto simp: quiet_step_def caught_def)
next
  case (Inr p)
  obtain res g where p: "p = (res, g)" by (cases p)
  let ?path = "js ''encrypted/'' @ l_documentId l @ js ''_'' @ toString10 (now_encryptedPath env) @ js ''.enc''"
  show ?thesis
  proof (cases "storage_upload (fail_upload env) ?path (encryptedData res) (w\<lparr>rng := g\<rparr>)")
    case (Inl message)
    with assms Inr p show ?thesis by (auto simp: quiet_step_def caught_def Let_def)
  next
    case stored: (Inr w'')
    from storage_upload_tables [OF stored]
    have "documents w'' = documents w" "document_encryption w'' = document_encryption w" by simp_all
    with assms Inr p stored show ?thesis
      by (auto simp: quiet_step_def Let_def)
  qed
qed

lemma quiet_step_tables:
  assumes "quiet_step i w i' w'"
  shows "documents w' = documents w" "document_encryption w' = document_encryption w"
    "\<forall>l. i' \<noteq> FlippingDocument l"
  using assms unfolding quiet_step_def by blast+

lemma not_flipping_ready:
  assumes "\<forall>l. i' \<noteq> FlippingDocument l"
  shows "flip_ready i' w'"
  using assms by (cases i') simp_all

lemma quiet_step_keeps_invariant:
  assumes "metadata_before_status w" and "quiet_step i w i' w'"
  shows "metadata_before_status w' \<and> flip_ready i' w' \<and>
         set (document_encryption w) \<subseteq> set (document_encryption w')"
proof (intro conjI)
  note t = quiet_step_tables [OF assms(2)]
  have sub: "set (document_encryption w) \<subseteq> set (document_encryption w')"
    unfolding t(2) by (rule subset_refl)
  from assms(1) t(1) sub show "metadata_before_status w'"
    by (rule metadata_before_status_mono)
  from t(3) show "flip_ready i' w'" by (rule not_flipping_ready)
  show "set (document_encryption w) \<subseteq> set (document_encryption w')" by (rule sub)
qed

lemma step_StoringMetadata_failed:
  assumes "step sc env (StoringMetadata l) w = (i', w')"
    and "insert_document_encryption (fail_insert_metadata env)
           \<lparr>m_document_id = l_documentId l, m_encryption_key_id = k_id (l_encryptionKey l),
            m_encrypted_path = l_encryptedPath l, m_iv = iv (l_encryptionResult l),
            m_auth_tag = authTag (l_encryptionResult l)\<rparr> w = Inl message"
  shows "w' = w" "\<exists>r m. i' = Returned r m"
  using assms by (auto simp: caught_def)

lemma step_StoringMetadata_stored:
  assumes "step sc env (StoringMetadata l) w = (i', w')"
    and "insert_document_encryption (fail_insert_metadata env)
           \<lparr>m_document_id = l_documentId l, m_encryption_key_id = k_id (l_encryptionKey l),
            m_encrypted_path = l_encryptedPath l, m_iv = iv (l_encryptionResult l),
            m_auth_tag = authTag (l_encryptionResult l)\<rparr> w = Inr w''"
  shows "i' = FlippingDocument l" "w' = w''"
  using assms by simp_all

lemma returned_keeps_invariant:
  assumes "metadata_before_status w" "w' = w" "\<exists>r m. i' = Returned r m"
  shows "metadata_before_status w' \<and> flip_ready i' w' \<and>
         set (document_encryption w) \<subseteq> set (document_encryption w')"
  using assms by auto

lemma appended_row_ready:
  assumes "document_encryption w' = document_encryption w @ [row]" and "m_document_id row = ident"
    and "l_documentId l = ident"
  shows "flip_ready (FlippingDocument l) w'"
  using assms by simp

lemma appended_row_mono:
  assumes "document_encryption w' = document_encryption w @ [row]"
  shows "set (document_encryption w) \<subseteq> set (document_encryption w')"
  using assms by auto

lemma step_StoringMetadata:
  assumes "metadata_before_status w" and "step sc env (StoringMetadata l) w = (i', w')"
  shows "metadata_before_status w' \<and> flip_ready i' w' \<and>
         set (document_encryption w) \<subseteq> set (document_encryption w')"
proof -
  let ?row = "\<lparr>m_document_id = l_documentId l, m_encryption_key_id = k_id (l_encryptionKey l),
              m_encrypted_path = l_encryptedPath l, m_iv = iv (l_encryptionResult l),
              m_auth_tag = authTag (l_encryptionResult l)\<rparr>"
  show ?thesis
  proof (cases "insert_document_encryption (fail_insert_metadata env) ?row w")
    case (Inl message)
    from assms(1) step_StoringMetadata_failed [OF assms(2) Inl] show ?thesis
      by (rule returned_keeps_invariant)
  next
    case (Inr w'')
    note eq = step_StoringMetadata_stored [OF assms(2) Inr]
    from insert_document_encryption_tables [OF Inr]
    have t: "documents w'' = documents w" "document_encryption w'' = document_encryption w @ [?row]"
      by blast+
    have mono: "set (document_encryption w) \<subseteq> set (document_encryption w'')"
      using t(2) by (rule appended_row_mono)
    from assms(1) t(1) mono have "metadata_before_status w''"
      by (rule metadata_before_status_mono)
    moreover have "flip_ready (FlippingDocument l) w''"
      using t(2) by (rule appended_row_ready) simp_all
    ultimately show ?thesis
      unfolding eq using mono by blast
  qed
qed

lemma step_FlippingDocument:
  assumes "metadata_before_status w" and "flip_ready (FlippingDocument l) w"
    and "step sc env (FlippingDocument l) w = (i', w')"
  shows "metadata_before_status w' \<and> flip_ready i' w' \<and>
         set (document_encryption w) \<subseteq> set (document_encryption w')"
proof -
  from assms(3) have eq: "i' = Completing l"
    "w' = update_documents (fail_update_document env) (l_documentId l)
        (\<lambda>d. d\<lparr>d_status := js ''encrypted'', d_processed_at := Some (now_processed env)\<rparr>) w"
    by simp_all
  from assms(2) have "\<exists>m \<in> set (document_encryption w). m_document_id m = l_documentId l"
    by simp
  from flip_keeps_invariant [OF assms(1) this, of "fail_update_document env" "Some (now_processed env)"]
  have "metadata_before_status w'" unfolding eq(2) .
  moreover have "flip_ready i' w'" unfolding eq(1) by simp
  moreover have "set (document_encryption w) \<subseteq> set (document_encryption w')"
    unfolding eq(2) update_documents_metadata by (rule subset_refl)
  ultimately show ?thesis by blast
qed

lemma step_keeps_invariant:
  assumes "metadata_before_status w" and "flip_ready i w" and "step sc env i w = (i', w')"
  shows "metadata_before_status w' \<and> flip_ready i' w' \<and>
         set (document_encryption w) \<subseteq> set (document_encryption w')"
proof (cases i)
  case (Received req)
  from assms(3) have "quiet_step i w i' w'" unfolding Received by (rule step_Received)
  with assms(1) show ?thesis by (rule quiet_step_keeps_invariant)
next
  case (Claiming l)
  from assms(3) have "quiet_step i w i' w'" unfolding Claiming by (rule step_Claiming)
  with assms(1) show ?thesis by (rule quiet_step_keeps_invariant)
next
  case (Loading l)
  from assms(3) have "quiet_step i w i' w'" unfolding Loading by (rule step_Loading)
  with assms(1) show ?thesis by (rule quiet_step_keeps_invariant)
next
  case (Downloading l)
  from assms(3) have "quiet_step i w i' w'" unfolding Downloading by (rule step_Downloading)
  with assms(1) show ?thesis by (rule quiet_step_keeps_invariant)
next
  case (StoringKey l)
  from assms(3) have "quiet_step i w i' w'" unfolding StoringKey by (rule step_StoringKey)
  with assms(1) show ?thesis by (rule quiet_step_keeps_invariant)
next
  case (Uploading l)
  from assms(3) have "quiet_step i w i' w'" unfolding Uploading by (rule step_Uploading)
  with assms(1) show ?thesis by (rule quiet_step_keeps_invariant)
next
  case (StoringMetadata l)
  from assms(1) assms(3) [unfolded StoringMetadata] show ?thesis by (rule step_StoringMetadata)
next
  case (FlippingDocument l)
  from assms(1) assms(2) [unfolded FlippingDocument] assms(3) [unfolded FlippingDocument]
  show ?thesis by (rule step_FlippingDocument)
next
  case (Completing l)
  from assms(3) have "quiet_step i w i' w'" unfolding Completing by (rule step_Completing)
  with assms(1) show ?thesis by (rule quiet_step_keeps_invariant)
next
  case (Returned r m)
  from assms(3) have "quiet_step i w i' w'" unfolding Returned by (rule step_Returned)
  with assms(1) show ?thesis by (rule quiet_step_keeps_invariant)
qed

section \<open>Metadata before status\<close>

lemma upload_document_keeps_invariant:
  assumes "metadata_before_status w"
  shows "metadata_before_status (upload_document new_id filePath content w)"
  unfolding metadata_before_status_def
proof (intro ballI impI)
  fix d
  assume d: "d \<in> set (documents (upload_document new_id filePath content w))"
    and e: "d_status d = js ''encrypted''"
  from d have "d \<in> set (documents w) \<or> d_status d = js ''uploaded''"
    by (auto simp: upload_document_def)
  with e have "d \<in> set (documents w)" using status_literals(2) by auto
  with assms e obtain m where "m \<in> set (document_encryption w)" "m_document_id m = d_id d"
    unfolding metadata_before_status_def by blast
  then show "\<exists>m \<in> set (document_encryption (upload_document new_id filePath content w)). m_document_id m = d_id d"
    by (auto simp: upload_document_def)
qed

lemma upload_document_metadata:
  "document_encryption (upload_document new_id filePath content w) = document_encryption w"
  by (simp add: upload_document_def)

lemma enqueue_tables:
  "documents (snd (enqueue_document_processing queue_id p_document_id p_task_type p_task_data w)) = documents w"
  "document_encryption (snd (enqueue_document_processing queue_id p_document_id p_task_type p_task_data w)) =
     document_encryption w"
  by (simp_all add: enqueue_document_processing_def)

lemma apply_event_keeps_invariant:
  assumes "system_invariant s"
  shows "system_invariant (apply_event sc e s)"
proof -
  obtain pool w where s: "s = (pool, w)" by (cases s)
  from assms have inv: "metadata_before_status w" and ready: "\<forall>i \<in> set pool. flip_ready i w"
    unfolding s system_invariant_def by simp_all
  show ?thesis
  proof (cases e)
    case (Upload new_id filePath content)
    let ?w = "upload_document new_id filePath content w"
    have sub: "set (document_encryption w) \<subseteq> set (document_encryption ?w)"
      unfolding upload_document_metadata by (rule subset_refl)
    from ready sub have "\<forall>i \<in> set pool. flip_ready i ?w"
      by (blast intro: flip_ready_mono)
    moreover from inv have "metadata_before_status ?w" by (rule upload_document_keeps_invariant)
    ultimately show ?thesis
      unfolding s Upload system_invariant_def by simp
  next
    case (Enqueue queue_id p_document_id p_task_type p_task_data)
    let ?w = "snd (enqueue_document_processing queue_id p_document_id p_task_type p_task_data w)"
    have sub: "set (document_encryption w) \<subseteq> set (document_encryption ?w)"
      unfolding enqueue_tables by (rule subset_refl)
    from inv enqueue_tables(1) sub have "metadata_before_status ?w"
      by (rule metadata_before_status_mono)
    moreover from ready sub have "\<forall>i \<in> set pool. flip_ready i ?w"
      by (blast intro: flip_ready_mono)
    ultimately show ?thesis
      unfolding s Enqueue system_invariant_def by simp
  next
    case (Request req)
    from inv ready show ?thesis
      unfolding s Request system_invariant_def by simp
  next
    case (Advance k env)
    show ?thesis
    proof (cases "k < length pool")
      case False
      with assms show ?thesis unfolding s Advance by simp
    next
      case True
      obtain i' w' where st: "step sc env (pool ! k) w = (i', w')" by (cases "step sc env (pool ! k) w")
      from True ready have "flip_ready (pool ! k) w" by simp
      from step_keeps_invariant [OF inv this st]
      have inv': "metadata_before_status w'" and r': "flip_ready i' w'"
        and mono: "set (document_encryption w) \<subseteq> set (document_encryption w')"
        by blast+
      have "flip_ready j w'" if "j \<in> set (pool[k := i'])" for j
      proof -
        from that have "j = i' \<or> j \<in> set pool" using set_update_subset_insert [of pool k i'] by auto
        with r' ready mono show ?thesis by (blast intro: flip_ready_mono)
      qed
      with inv' True st show ?thesis
        unfolding s Advance system_invariant_def by simp
    qed
  qed
qed

lemma exec_keeps_invariant: "system_invariant s \<Longrightarrow> system_invariant (exec sc events s)"
  unfolding exec_def
  by (induction events arbitrary: s) (simp_all add: apply_event_keeps_invariant)

lemma pending_world_invariant: "metadata_before_status pending_world"
  by code_simp

lemma full_run_view:
  "reader_view (snd (exec test_subtle full_run ([], pending_world))) =
     ([(js ''d1'', js ''encrypted'')], [js ''d1''])"
  by code_simp

text \<open>
  C4.  Start from a state in which every document with status \<^verbatim>\<open>'encrypted'\<close> has a
  metadata row.  Then so has every state the system reaches, whatever uploads, enqueues
  and requests arrive, however the steps of the invocations interleave and whichever
  requests fail: an invocation sets the status only after its insert of the metadata row
  has succeeded, and no step removes a metadata row.
\<close>

theorem encrypted_status_has_metadata:
  assumes "metadata_before_status w0"
  shows "metadata_before_status (snd (exec sc events ([], w0)))"
proof -
  from assms have "system_invariant ([], w0)" by (simp add: system_invariant_def)
  then have "system_invariant (exec sc events ([], w0))" by (rule exec_keeps_invariant)
  then show ?thesis by (simp add: system_invariant_def)
qed

theorem encrypted_status_has_metadata_witness:
  "metadata_before_status pending_world \<and>
   reader_view (snd (exec test_subtle full_run ([], pending_world))) =
     ([(js ''d1'', js ''encrypted'')], [js ''d1'']) \<and>
   metadata_before_status (snd (exec test_subtle full_run ([], pending_world)))"
  using encrypted_status_has_metadata [OF pending_world_invariant, of test_subtle full_run]
    pending_world_invariant full_run_view
  by blast

section \<open>The queue is never written\<close>

text \<open>
  No step of the handler changes \<^verbatim>\<open>processing_queue\<close>: the two updates are refused
  and nothing else writes to the table.  So no run of the handler, whatever its outcome,
  gives a task another status or an \<^verbatim>\<open>error_message\<close>.
\<close>

lemma storage_upload_queue:
  "storage_upload fault path content w = Inr w' \<Longrightarrow> processing_queue w' = processing_queue w"
  by (auto simp: storage_upload_def split: option.splits)

lemma insert_encryption_key_queue:
  "insert_encryption_key fault row w = Inr (r, w') \<Longrightarrow> processing_queue w' = processing_queue w"
  by (auto simp: insert_encryption_key_def split: option.splits)

lemma insert_document_encryption_queue:
  "insert_document_encryption fault row w = Inr w' \<Longrightarrow> processing_queue w' = processing_queue w"
  by (auto simp: insert_document_encryption_def split: option.splits)

lemma update_documents_queue:
  "processing_queue (update_documents fault ident change w) = processing_queue w"
  by (simp add: update_documents_def split: option.splits)

lemma step_queue_Received:
  "step sc env (Received req) w = (i', w') \<Longrightarrow> processing_queue w' = processing_queue w"
  by (auto simp: caught_def Let_def split: if_splits request_body.splits option.splits sum.splits)

lemma step_queue_Loading:
  "step sc env (Loading l) w = (i', w') \<Longrightarrow> processing_queue w' = processing_queue w"
  by (auto simp: caught_def split: sum.splits)

lemma step_queue_Downloading:
  "step sc env (Downloading l) w = (i', w') \<Longrightarrow> processing_queue w' = processing_queue w"
  by (auto simp: caught_def split: sum.splits)

lemma step_queue_StoringKey:
  assumes "step sc env (StoringKey l) w = (i', w')"
  shows "processing_queue w' = processing_queue w"
proof (cases "generateDEK (rng w)")
  case (Inl e)
  with assms show ?thesis by (auto simp: caught_def)
next
  case (Inr p)
  obtain k g1 where p: "p = (k, g1)" by (cases p)
  show ?thesis
  proof (cases "encryptDEK sc (l_masterKey l) k g1")
    case (Inl e)
    with assms Inr p show ?thesis by (auto simp: caught_def)
  next
    case wrapped: (Inr q)
    obtain e g2 where q: "q = (e, g2)" by (cases q)
    let ?row = "\<lparr>k_id = new_key_uuid env,
        k_key_id = js ''key_'' @ l_documentId l @ js ''_'' @ toString10 (now_keyId env),
        k_encrypted_dek = e, k_created_by = None\<rparr>"
    show ?thesis
    proof (cases "insert_encryption_key (fail_insert_key env) ?row (w\<lparr>rng := g2\<rparr>)")
      case (Inl message)
      with assms Inr p wrapped q show ?thesis by (auto simp: caught_def Let_def)
    next
      case stored: (Inr s)
      obtain r w'' where s: "s = (r, w'')" by (cases s)
      from insert_encryption_key_queue [OF stored [unfolded s]]
      have "processing_queue w'' = processing_queue w" by simp
      moreover from assms Inr p wrapped q stored s have "w' = w''" by (auto simp: Let_def)
      ultimately show ?thesis by blast
    qed
  qed
qed

lemma step_queue_Uploading:
  assumes "step sc env (Uploading l) w = (i', w')"
  shows "processing_queue w' = processing_queue w"
proof (cases "encryptFile sc (l_fileBytes l) (l_dek l) (rng w)")
  case (Inl e)
  with assms show ?thesis by (auto simp: caught_def)
next
  case (Inr p)
  obtain res g where p: "p = (res, g)" by (cases p)
  let ?path = "js ''encrypted/'' @ l_documentId l @ js ''_'' @ toString10 (now_encryptedPath env) @ js ''.enc''"
  show ?thesis
  proof (cases "storage_upload (fail_upload env) ?path (encryptedData res) (w\<lparr>rng := g\<rparr>)")
    case (Inl message)
    with assms Inr p show ?thesis by (auto simp: caught_def Let_def)
  next
    case stored: (Inr w'')
    from storage_upload_queue [OF stored]
    have "processing_queue w'' = processing_queue w" by simp
    moreover from assms Inr p stored have "w' = w''" by (auto simp: Let_def)
    ultimately show ?thesis by blast
  qed
qed

lemma step_queue_StoringMetadata:
  assumes "step sc env (StoringMetadata l) w = (i', w')"
  shows "processing_queue w' = processing_queue w"
proof (cases "insert_document_encryption (fail_insert_metadata env)
           \<lparr>m_document_id = l_documentId l, m_encryption_key_id = k_id (l_encryptionKey l),
            m_encrypted_path = l_encryptedPath l, m_iv = iv (l_encryptionResult l),
            m_auth_tag = authTag (l_encryptionResult l)\<rparr> w")
  case (Inl message)
  from step_StoringMetadata_failed(1) [OF assms Inl] show ?thesis by blast
next
  case (Inr w'')
  from step_StoringMetadata_stored(2) [OF assms Inr] insert_document_encryption_queue [OF Inr]
  show ?thesis by blast
qed

lemma step_keeps_queue:
  assumes "step sc env i w = (i', w')"
  shows "processing_queue w' = processing_queue w"
proof (cases i)
  case (Received req)
  from assms [unfolded Received] show ?thesis by (rule step_queue_Received)
next
  case (Claiming l)
  from assms [unfolded Claiming step_Claiming_refused] have "w' = w" by simp
  then show ?thesis by (simp only:)
next
  case (Loading l)
  from assms [unfolded Loading] show ?thesis by (rule step_queue_Loading)
next
  case (Downloading l)
  from assms [unfolded Downloading] show ?thesis by (rule step_queue_Downloading)
next
  case (StoringKey l)
  from assms [unfolded StoringKey] show ?thesis by (rule step_queue_StoringKey)
next
  case (Uploading l)
  from assms [unfolded Uploading] show ?thesis by (rule step_queue_Uploading)
next
  case (StoringMetadata l)
  from assms [unfolded StoringMetadata] show ?thesis by (rule step_queue_StoringMetadata)
next
  case (FlippingDocument l)
  from assms [unfolded FlippingDocument] have "w' = update_documents (fail_update_document env) (l_documentId l)
        (\<lambda>d. d\<lparr>d_status := js ''encrypted'', d_processed_at := Some (now_processed env)\<rparr>) w"
    by simp
  then show ?thesis by (simp only: update_documents_queue)
next
  case (Completing l)
  from assms [unfolded Completing step_Completing_refused] have "w' = w" by simp
  then show ?thesis by (simp only:)
next
  case (Returned r m)
  from assms [unfolded Returned] have "w' = w" by simp
  then show ?thesis by (simp only:)
qed



text \<open>
  Hence the \<^verbatim>\<open>CHECK\<close> holds in every state the system reaches from one in which it
  holds, the empty one for instance: an upload does not touch the queue, an enqueue adds a
  task with status \<^verbatim>\<open>'queued'\<close>.
\<close>

lemma check_queue_eq:
  "processing_queue w' = processing_queue w \<Longrightarrow> processing_queue_check w \<Longrightarrow> processing_queue_check w'"
  by (simp add: processing_queue_check_def)

lemma upload_document_queue:
  "processing_queue (upload_document new_id filePath content w) = processing_queue w"
  by (simp add: upload_document_def)

lemma enqueue_keeps_check:
  "processing_queue_check w \<Longrightarrow>
     processing_queue_check (snd (enqueue_document_processing queue_id p_document_id p_task_type p_task_data w))"
  by (auto simp: processing_queue_check_def processing_queue_status_check_def enqueue_document_processing_def)

lemma apply_event_keeps_check:
  assumes "processing_queue_check (snd s)"
  shows "processing_queue_check (snd (apply_event sc e s))"
proof -
  obtain pool w where s: "s = (pool, w)" by (cases s)
  from assms have c: "processing_queue_check w" unfolding s by simp
  show ?thesis
  proof (cases e)
    case (Upload new_id filePath content)
    from upload_document_queue c have "processing_queue_check (upload_document new_id filePath content w)"
      by (rule check_queue_eq)
    then show ?thesis unfolding s Upload by simp
  next
    case (Enqueue queue_id p_document_id p_task_type p_task_data)
    from c show ?thesis unfolding s Enqueue by (simp add: enqueue_keeps_check)
  next
    case (Request req)
    from c show ?thesis unfolding s Request by simp
  next
    case (Advance k env)
    show ?thesis
    proof (cases "k < length pool")
      case False
      with c show ?thesis unfolding s Advance by simp
    next
      case True
      obtain i' w' where st: "step sc env (pool ! k) w = (i', w')" by (cases "step sc env (pool ! k) w")
      from step_keeps_queue [OF st] c have "processing_queue_check w'" by (rule check_queue_eq)
      with True st show ?thesis unfolding s Advance by simp
    qed
  qed
qed

lemma exec_keeps_check:
  "processing_queue_check (snd s) \<Longrightarrow> processing_queue_check (snd (exec sc events s))"
  unfolding exec_def
  by (induction events arbitrary: s) (simp_all add: apply_event_keeps_check)

lemma empty_world_check: "processing_queue_check (empty_world g)"
  by (simp add: processing_queue_check_def empty_world_def)


section \<open>Callers racing for a task\<close>










section \<open>Failures\<close>








text \<open>
  Behind the \<^verbatim>\<open>select\<close> the same holds.  In \<open>pending_world\<close>, where the handler finds
  the task, a failing download ends the run with status 500 and every table as it was.
\<close>

lemma pending_world_download_failure:
  "serve test_subtle (quiet\<lparr>fail_download := Some (js ''connection reset'')\<rparr>) (post (js ''d1'')) pending_world =
     (Failure (Error (js ''File download failed: connection reset'')),
      \<lparr>mem_fileBytes = None, mem_dek = None\<rparr>,
      pending_world)"
  by code_simp

section \<open>The plaintext and the key in memory\<close>

text \<open>
  A run that ends in success returns with \<^verbatim>\<open>fileBytes\<close> filled with zeros.
\<close>

lemma not_success_Received:
  "step sc env (Received req) w = (Returned r m, w') \<Longrightarrow> r \<noteq> Success p k"
  by (auto simp: caught_def Let_def split: if_splits request_body.splits option.splits sum.splits)

lemma not_success_Loading:
  "step sc env (Loading l) w = (Returned r m, w') \<Longrightarrow> r \<noteq> Success p k"
  by (auto simp: caught_def split: sum.splits)

lemma not_success_Downloading:
  "step sc env (Downloading l) w = (Returned r m, w') \<Longrightarrow> r \<noteq> Success p k"
  by (auto simp: caught_def split: sum.splits)

lemma not_success_StoringKey:
  assumes "step sc env (StoringKey l) w = (Returned r m, w')"
  shows "r \<noteq> Success p k"
proof (cases "generateDEK (rng w)")
  case (Inl e)
  with assms show ?thesis by (auto simp: caught_def)
next
  case (Inr x)
  obtain key g1 where x: "x = (key, g1)" by (cases x)
  show ?thesis
  proof (cases "encryptDEK sc (l_masterKey l) key g1")
    case (Inl e)
    with assms Inr x show ?thesis by (auto simp: caught_def)
  next
    case wrapped: (Inr q)
    obtain e g2 where q: "q = (e, g2)" by (cases q)
    let ?row = "\<lparr>k_id = new_key_uuid env,
        k_key_id = js ''key_'' @ l_documentId l @ js ''_'' @ toString10 (now_keyId env),
        k_encrypted_dek = e, k_created_by = None\<rparr>"
    show ?thesis
    proof (cases "insert_encryption_key (fail_insert_key env) ?row (w\<lparr>rng := g2\<rparr>)")
      case (Inl message)
      with assms Inr x wrapped q show ?thesis by (auto simp: caught_def Let_def)
    next
      case stored: (Inr s)
      obtain r' w'' where s: "s = (r', w'')" by (cases s)
      with assms Inr x wrapped q stored show ?thesis by (auto simp: Let_def)
    qed
  qed
qed

lemma not_success_Uploading:
  assumes "step sc env (Uploading l) w = (Returned r m, w')"
  shows "r \<noteq> Success p k"
proof (cases "encryptFile sc (l_fileBytes l) (l_dek l) (rng w)")
  case (Inl e)
  with assms show ?thesis by (auto simp: caught_def)
next
  case (Inr x)
  obtain res g where x: "x = (res, g)" by (cases x)
  let ?path = "js ''encrypted/'' @ l_documentId l @ js ''_'' @ toString10 (now_encryptedPath env) @ js ''.enc''"
  show ?thesis
  proof (cases "storage_upload (fail_upload env) ?path (encryptedData res) (w\<lparr>rng := g\<rparr>)")
    case (Inl message)
    with assms Inr x show ?thesis by (auto simp: caught_def Let_def)
  next
    case stored: (Inr w'')
    with assms Inr x show ?thesis by (auto simp: Let_def)
  qed
qed

lemma not_success_StoringMetadata:
  "step sc env (StoringMetadata l) w = (Returned r m, w') \<Longrightarrow> r \<noteq> Success p k"
  by (auto simp: caught_def split: sum.splits)

lemma map_zero: "map (\<lambda>b. 0) xs = replicate (length xs) 0"
  by (induction xs) simp_all

lemma serve_from_success_scrubbed:
  "serve_from sc env i w = (Success p k, m, w') \<Longrightarrow> outcome i = None \<Longrightarrow> scrubbed m"
proof (induction sc env i w rule: serve_from.induct)
  case (1 sc env i w)
  obtain i1 w1 where st: "step sc env i w = (i1, w1)" by (cases "step sc env i w")
  from 1(3) st 1(2) have run: "serve_from sc env i1 w1 = (Success p k, m, w')"
    by (simp add: serve_from.simps [of sc env i w])
  have early: ?case if ns: "\<And>r' m'. step sc env i w = (Returned r' m', w1) \<Longrightarrow> r' \<noteq> Success p k"
  proof (cases "outcome i1")
    case None
    from 1(1) [OF 1(3) st [symmetric] run None] show ?thesis .
  next
    case (Some x)
    then obtain r' m' where i1: "i1 = Returned r' m'" by (cases i1) simp_all
    with run have "r' = Success p k" by (simp add: serve_from_Returned)
    with ns [OF st [unfolded i1]] show ?thesis by blast
  qed
  show ?case
  proof (cases i)
    case (Received req)
    show ?thesis
    proof (rule early)
      fix r' m' assume "step sc env i w = (Returned r' m', w1)"
      then show "r' \<noteq> Success p k" unfolding Received by (rule not_success_Received)
    qed
  next
    case (Claiming l)
    with st have "outcome i1 = None" by auto
    from 1(1) [OF 1(3) st [symmetric] run this] show ?thesis .
  next
    case (Loading l)
    show ?thesis
    proof (rule early)
      fix r' m' assume "step sc env i w = (Returned r' m', w1)"
      then show "r' \<noteq> Success p k" unfolding Loading by (rule not_success_Loading)
    qed
  next
    case (Downloading l)
    show ?thesis
    proof (rule early)
      fix r' m' assume "step sc env i w = (Returned r' m', w1)"
      then show "r' \<noteq> Success p k" unfolding Downloading by (rule not_success_Downloading)
    qed
  next
    case (StoringKey l)
    show ?thesis
    proof (rule early)
      fix r' m' assume "step sc env i w = (Returned r' m', w1)"
      then show "r' \<noteq> Success p k" unfolding StoringKey by (rule not_success_StoringKey)
    qed
  next
    case (Uploading l)
    show ?thesis
    proof (rule early)
      fix r' m' assume "step sc env i w = (Returned r' m', w1)"
      then show "r' \<noteq> Success p k" unfolding Uploading by (rule not_success_Uploading)
    qed
  next
    case (StoringMetadata l)
    show ?thesis
    proof (rule early)
      fix r' m' assume "step sc env i w = (Returned r' m', w1)"
      then show "r' \<noteq> Success p k" unfolding StoringMetadata by (rule not_success_StoringMetadata)
    qed
  next
    case (FlippingDocument l)
    with 1(2) have "m = \<lparr>mem_fileBytes = Some (map (\<lambda>b. 0) (l_fileBytes l)), mem_dek = Some (l_dek l)\<rparr>"
      by (simp add: serve_from_FlippingDocument serve_from_Completing)
    then have "mem_fileBytes m = Some (replicate (length (l_fileBytes l)) 0)"
      by (simp add: map_zero)
    then show ?thesis unfolding scrubbed_def by (rule exI)
  next
    case (Completing l)
    with 1(2) have "m = \<lparr>mem_fileBytes = Some (map (\<lambda>b. 0) (l_fileBytes l)), mem_dek = Some (l_dek l)\<rparr>"
      by (simp add: serve_from_Completing)
    then have "mem_fileBytes m = Some (replicate (length (l_fileBytes l)) 0)"
      by (simp add: map_zero)
    then show ?thesis unfolding scrubbed_def by (rule exI)
  next
    case (Returned r' m')
    with 1(3) show ?thesis by simp
  qed
qed

lemma success_scrubs_plaintext:
  assumes "serve sc env req w = (Success p k, m, w')"
  shows "scrubbed m"
  using assms [unfolded serve_def] by (rule serve_from_success_scrubbed) simp

text \<open>
  A run that fails after the download returns with the plaintext still in
  \<^verbatim>\<open>fileBytes\<close>, and after \<^verbatim>\<open>generateDEK\<close> with the key still in \<^verbatim>\<open>dek\<close>: the
  \<^verbatim>\<open>catch\<close> block clears nothing.  In \<open>pending_world\<close> a failing insert of the key
  row ends the run so.
\<close>

lemma pending_world_key_insert_failure:
  "serve test_subtle (quiet\<lparr>fail_insert_key := Some (js ''permission denied'')\<rparr>) (post (js ''d1'')) pending_world =
     (Failure (Error (js ''Failed to create encryption key: permission denied'')),
      \<lparr>mem_fileBytes = Some [0x68, 0x69, 0x21],
       mem_dek = Some (js ''030a11181f262d343b424950575e656c737a81888f969da4abb2b9c0c7ced5dc'')\<rparr>,
      pending_world\<lparr>rng := drop 44 test_rng\<rparr>)"
  by code_simp





end
